theory Spec2Isabelle
  imports Main "HOL-Library.AList"
begin

section \<open>Host data read by the plugin\<close>

text \<open>
  The plugin (\<^verbatim>\<open>class HotReload\<close> of \<^verbatim>\<open>src/hot-reload.ts\<close>) talks to its host
  through \<^verbatim>\<open>this.app\<close>.  The parts of the host the code reads are fields of the record
  \<open>app\<close>.  A \<^verbatim>\<open>Set<string>\<close> is a set.  \<^verbatim>\<open>Object.values\<close> walks the own properties of an
  object in property order, so a record the code iterates over (\<^verbatim>\<open>manifests\<close>,
  \<^verbatim>\<open>pluginNames\<close>) is an association list of its own properties.
\<close>

type_synonym plugin = string
type_synonym path = string

datatype ftype = File | Folder

record stat =
  ftype :: ftype
  ctime :: int
  mtime :: int
  fsize :: int

record manifest =
  plugin_id :: plugin
  dir :: path

record tab =
  tab_id :: plugin
  scrollTop :: int
  scrollLeft :: int

text \<open>
  \<open>memberKey n\<close> is the property key that the member \<open>n\<close> of \<^verbatim>\<open>Object.prototype\<close> turns
  into when it is used as one (lines 65 and 77): the text of a native function, which the
  engine chooses.
\<close>

record app =
  manifests :: "(plugin \<times> manifest) list"
  host_enabledPlugins :: "plugin set"
  pluginFolder :: path
  activeTab :: "tab option"
  settingShown :: bool
  localStorage :: "string \<rightharpoonup> string"
  watchers :: "path set"
  adapter_stat :: "path \<rightharpoonup> stat"
  vault_exists :: "path \<Rightarrow> bool"
  apiVersion_1_6 :: bool
  watchNeeded :: bool
  isSymlink :: "path \<Rightarrow> bool"
  memberKey :: "string \<Rightarrow> string"

datatype error = Error string

subsection \<open>Plain objects\<close>

text \<open>
  \<^verbatim>\<open>pluginNames\<close> and \<^verbatim>\<open>pluginReloaders\<close> are plain objects, made by \<^verbatim>\<open>{}\<close> (lines 13, 14
  and 82).  On such an object \<^verbatim>\<open>o[k]\<close> finds the own property \<open>k\<close> and, when there is none,
  the member \<open>k\<close> of \<^verbatim>\<open>Object.prototype\<close>.  The members are those the language gives it:
  each is a function, except \<^verbatim>\<open>__proto__\<close>, which reads as \<^verbatim>\<open>Object.prototype\<close> itself; so
  each is truthy and none is a string.  \<^verbatim>\<open>o[k] = v\<close> makes or overwrites the own property
  \<open>k\<close> (in place when the key is there, appended otherwise), except for the key
  \<^verbatim>\<open>__proto__\<close>, whose setter ignores a string; \<^verbatim>\<open>delete o[k]\<close> removes the own property.
\<close>

definition object_prototype :: "string list" where
  "object_prototype =
     [''constructor'', ''hasOwnProperty'', ''isPrototypeOf'', ''propertyIsEnumerable'',
      ''toLocaleString'', ''toString'', ''valueOf'', ''__defineGetter__'', ''__defineSetter__'',
      ''__lookupGetter__'', ''__lookupSetter__'', ''__proto__'']"

datatype 'a property = Own 'a | Inherited string

definition get_property :: "(string \<rightharpoonup> 'a) \<Rightarrow> string \<Rightarrow> 'a property option" where
  "get_property obj k =
     (case obj k of
        Some v \<Rightarrow> Some (Own v)
      | None \<Rightarrow> if k \<in> set object_prototype then Some (Inherited k) else None)"

definition set_property :: "string \<Rightarrow> 'a \<Rightarrow> (string \<times> 'a) list \<Rightarrow> (string \<times> 'a) list" where
  "set_property k v obj = (if k = ''__proto__'' then obj else AList.update k v obj)"

text \<open>
  The value that reaches \<^verbatim>\<open>checkVersion\<close> and \<^verbatim>\<open>requestReload\<close> as \<^verbatim>\<open>plugin\<close> is a string or,
  when line 102 found a member of \<^verbatim>\<open>Object.prototype\<close> under the directory name, that
  member.  Used as a property key, a string is itself and a member is its text.
\<close>

datatype jsvalue = Str string | Member string

definition property_key :: "app \<Rightarrow> jsvalue \<Rightarrow> string" where
  "property_key a v = (case v of Str k \<Rightarrow> k | Member n \<Rightarrow> memberKey a n)"

section \<open>The plugin's state and the calls it makes\<close>

text \<open>
  Every call the plugin makes to the host, to the console, to \<^verbatim>\<open>localStorage\<close>, to a
  debounced function, and to its own \<^verbatim>\<open>requestReload\<close> is appended to \<open>trace\<close>, the way a
  test spy would record it.  A debounced function returned by \<^verbatim>\<open>debounce(...)\<close> is a
  fresh object; its identity is the number of \<^verbatim>\<open>debounce\<close> calls made before it
  (\<open>reloadersMade\<close>).  What the host library's \<^verbatim>\<open>debounce\<close> does when the debounced
  function is invoked is not part of this repository: the model records the invocation.
\<close>

datatype effect =
    ReloadRequested jsvalue
  | DebounceCreated nat plugin nat
  | DebounceInvoked nat
  | MemberCalled string
  | ReindexInvoked
  | StartWatchPath path
  | DisablePlugin plugin
  | EnablePlugin plugin
  | ConsoleDebug "string list"
  | ConsoleError error
  | SetItem string string
  | RemoveItem string
  | PatchRead plugin
  | Uninstall plugin
  | OpenTabById plugin
  | ScrollTo plugin int int
  | NewNotice string

record settings =
  shouldReopenActiveSettingsTab :: bool
  shouldShowReloadNotice :: bool

record hot_reload =
  settings :: settings
  statCache :: "path \<rightharpoonup> stat"
  pluginReloaders :: "plugin \<rightharpoonup> nat"
  pluginNames :: "(string \<times> plugin) list"
  enabledPlugins :: "plugin set"
  app :: app
  trace :: "effect list"
  reloadersMade :: nat

definition emit :: "effect \<Rightarrow> hot_reload \<Rightarrow> hot_reload" where
  "emit e s = s\<lparr>trace := trace s @ [e]\<rparr>"

subsection \<open>requestReload (lines 108-114)\<close>

text \<open>
  \<^verbatim>\<open>this.pluginReloaders[plugin] || (this.pluginReloaders[plugin] = debounce(..., 750, true))\<close>:
  what the lookup finds is truthy, be it a stored debounced function or a member of
  \<^verbatim>\<open>Object.prototype\<close>, so it is taken; when the lookup finds nothing a debounced function
  is made and stored.
\<close>

definition reloader_for :: "plugin \<Rightarrow> hot_reload \<Rightarrow> nat property \<times> hot_reload" where
  "reloader_for plugin s =
     (case get_property (pluginReloaders s) plugin of
        Some x \<Rightarrow> (x, s)
      | None \<Rightarrow>
          (Own (reloadersMade s),
           emit (DebounceCreated (reloadersMade s) plugin 750)
             (s\<lparr>pluginReloaders := (pluginReloaders s)(plugin \<mapsto> reloadersMade s),
                reloadersMade := Suc (reloadersMade s)\<rparr>)))"

text \<open>
  \<^verbatim>\<open>reloader()\<close> (line 113) calls what was found with no receiver and no argument.  Of the
  members of \<^verbatim>\<open>Object.prototype\<close>, \<^verbatim>\<open>Object\<close> (found as \<^verbatim>\<open>constructor\<close>), \<^verbatim>\<open>toString\<close> and
  \<^verbatim>\<open>isPrototypeOf\<close> return when called so; the others need a receiver and throw a
  \<^verbatim>\<open>TypeError\<close>, and so does the call of what \<^verbatim>\<open>__proto__\<close> reads as, which is no function.
\<close>

definition returns_without_receiver :: "string list" where
  "returns_without_receiver = [''constructor'', ''isPrototypeOf'', ''toString'']"

definition TypeError :: error where
  "TypeError = Error ''TypeError''"

definition call_reloader :: "nat property \<Rightarrow> hot_reload \<Rightarrow> (error + unit) \<times> hot_reload" where
  "call_reloader x s =
     (case x of
        Own r \<Rightarrow> (Inr (), emit (DebounceInvoked r) s)
      | Inherited n \<Rightarrow>
          (if n \<in> set returns_without_receiver then Inr () else Inl TypeError,
           emit (MemberCalled n) s))"

text \<open>
  \<^verbatim>\<open>this.enabledPlugins\<close> is a \<^verbatim>\<open>Set\<close> that holds strings only (line 89), so a member of
  \<^verbatim>\<open>Object.prototype\<close> is not in it.  The result is \<open>Inl e\<close> when the call throws \<open>e\<close>.
\<close>

definition requestReload :: "jsvalue \<Rightarrow> hot_reload \<Rightarrow> (error + unit) \<times> hot_reload" where
  "requestReload plugin s =
     (let s0 = emit (ReloadRequested plugin) s in
      case plugin of
        Member n \<Rightarrow> (Inr (), s0)
      | Str i \<Rightarrow>
          if i \<notin> enabledPlugins s0 then (Inr (), s0)
          else (case reloader_for i s0 of (x, s1) \<Rightarrow> call_reloader x s1))"

subsection \<open>checkVersion (lines 64-79)\<close>

text \<open>
  \<^verbatim>\<open>const {dir} = (this.app.plugins.manifests[plugin] || {})\<close> followed by \<^verbatim>\<open>if (dir)\<close>:
  the directory counts when the manifest exists and its \<^verbatim>\<open>dir\<close> is a non-empty string.
  (A member of \<^verbatim>\<open>Object.prototype\<close> found there has no \<^verbatim>\<open>dir\<close>.)
\<close>

definition manifest_dir :: "app \<Rightarrow> plugin \<Rightarrow> path option" where
  "manifest_dir a plugin =
     (case map_of (manifests a) plugin of
        None \<Rightarrow> None
      | Some m \<Rightarrow> if dir m = [] then None else Some (dir m))"

text \<open>
  The body of the \<^verbatim>\<open>for\<close> loop, for one \<^verbatim>\<open>path\<close>.  When \<^verbatim>\<open>requestReload\<close> throws, line 73
  is not reached.
\<close>

definition check_file :: "jsvalue \<Rightarrow> path \<Rightarrow> hot_reload \<Rightarrow> (error + unit) \<times> hot_reload" where
  "check_file plugin p s =
     (case adapter_stat (app s) p of
        None \<Rightarrow> (Inr (), s)
      | Some st \<Rightarrow>
          (case (case statCache s p of
                   None \<Rightarrow> (Inr (), s)
                 | Some old \<Rightarrow> if mtime st \<noteq> mtime old then requestReload plugin s else (Inr (), s))
           of (Inl e, s1) \<Rightarrow> (Inl e, s1)
            | (Inr u, s1) \<Rightarrow> (Inr (), s1\<lparr>statCache := (statCache s1)(p \<mapsto> st)\<rparr>)))"

text \<open>The loop: the files are taken in turn, and an error ends it.\<close>

fun check_files :: "jsvalue \<Rightarrow> path list \<Rightarrow> hot_reload \<Rightarrow> (error + unit) \<times> hot_reload" where
  "check_files plugin [] s = (Inr (), s)"
| "check_files plugin (p # ps) s =
     (case check_file plugin p s of
        (Inl e, s1) \<Rightarrow> (Inl e, s1)
      | (Inr u, s1) \<Rightarrow> check_files plugin ps s1)"

text \<open>
  An \<^verbatim>\<open>async\<close> function returns \<open>Inl e\<close> when its promise rejects with \<open>e\<close> and \<open>Inr ()\<close> when
  it fulfils, together with the state it leaves behind.
\<close>

definition checkVersion :: "jsvalue \<Rightarrow> hot_reload \<Rightarrow> (error + unit) \<times> hot_reload" where
  "checkVersion plugin s =
     (case manifest_dir (app s) (property_key (app s) plugin) of
        Some d \<Rightarrow> check_files plugin (map (\<lambda>file. d @ ''/'' @ file) [''main.js'', ''styles.css'']) s
      | None \<Rightarrow>
          (Inr (), s\<lparr>pluginNames := AList.delete (property_key (app s) plugin) (pluginNames s)\<rparr>))"

subsection \<open>watch (lines 41-45)\<close>

text \<open>
  \<^verbatim>\<open>startWatchPath\<close> is the host's; the model records the call and the path among the
  host's watchers.
\<close>

definition startWatchPath :: "path \<Rightarrow> hot_reload \<Rightarrow> hot_reload" where
  "startWatchPath p s =
     emit (StartWatchPath p) (s\<lparr>app := (app s)\<lparr>watchers := insert p (watchers (app s))\<rparr>\<rparr>)"

definition watch :: "path \<Rightarrow> hot_reload \<Rightarrow> hot_reload" where
  "watch p s =
     (if p \<in> watchers (app s) then s
      else (case adapter_stat (app s) p of
              None \<Rightarrow> s
            | Some st \<Rightarrow>
                if ftype st \<noteq> Folder then s
                else if watchNeeded (app s) \<or> isSymlink (app s) p then startWatchPath p s
                else s))"

subsection \<open>Strings: split("/"), startsWith, pop\<close>

fun split_slash :: "string \<Rightarrow> string list" where
  "split_slash [] = [[]]"
| "split_slash (c # cs) =
     (if c = CHR ''/'' then [] # split_slash cs
      else (case split_slash cs of [] \<Rightarrow> [[c]] | w # ws \<Rightarrow> (c # w) # ws))"

definition startsWith :: "string \<Rightarrow> string \<Rightarrow> bool" where
  "startsWith s p = (take (length p) s = p)"

text \<open>\<^verbatim>\<open>xs.pop()\<close>: the last element (\<^verbatim>\<open>undefined\<close> on an empty array) and the rest.\<close>

definition pop :: "'a list \<Rightarrow> 'a option \<times> 'a list" where
  "pop xs = (if xs = [] then (None, []) else (Some (last xs), butlast xs))"

subsection \<open>getPluginNames and checkVersions (lines 60-62, 81-94)\<close>

text \<open>
  \<^verbatim>\<open>Promise.all(Object.values(this.pluginNames).map(this.checkVersion))\<close>: the checks are
  started in property order over the values as they are when the call is made, and each
  runs to its end whatever the others do; the model runs them one after the other.  The
  promise of \<^verbatim>\<open>Promise.all\<close> rejects when one of them does, with the error of the first.
\<close>

definition checkVersions :: "hot_reload \<Rightarrow> (error + unit) \<times> hot_reload" where
  "checkVersions s =
     fold (\<lambda>plugin (res, s1).
             case checkVersion (Str plugin) s1 of
               (res', s2) \<Rightarrow> (case res of Inl e \<Rightarrow> Inl e | Inr u \<Rightarrow> res', s2))
       (map snd (pluginNames s)) (Inr (), s)"

text \<open>One round of the loop over the manifests: the two locals and the plugin.\<close>

definition has_marker :: "app \<Rightarrow> manifest \<Rightarrow> bool" where
  "has_marker a m = (vault_exists a (dir m @ ''/.git'') \<or> vault_exists a (dir m @ ''/.hotreload''))"

definition scan_manifest ::
  "manifest \<Rightarrow> (string \<times> plugin) list \<times> plugin set \<times> hot_reload \<Rightarrow>
     (string \<times> plugin) list \<times> plugin set \<times> hot_reload" where
  "scan_manifest m = (\<lambda>(plugins, enabled, s).
     (set_property (last (split_slash (dir m))) (plugin_id m) plugins,
      (if has_marker (app s) m then insert (plugin_id m) enabled else enabled),
      watch (dir m) s))"

definition getPluginNames :: "hot_reload \<Rightarrow> (error + unit) \<times> hot_reload" where
  "getPluginNames s =
     (case fold scan_manifest (map snd (manifests (app s))) ([], {}, s) of
        (plugins, enabled, s1) \<Rightarrow>
          checkVersions (s1\<lparr>pluginNames := plugins, enabledPlugins := enabled\<rparr>))"

subsection \<open>onFileChange (lines 96-106)\<close>

text \<open>
  \<^verbatim>\<open>const plugin = dir && this.pluginNames[dir]\<close> and the later test \<^verbatim>\<open>!plugin\<close>: the
  value is truthy when \<^verbatim>\<open>dir\<close> is a non-empty string under which \<^verbatim>\<open>pluginNames\<close> has a
  non-empty id of its own or, having none of its own, a member of \<^verbatim>\<open>Object.prototype\<close>.
\<close>

definition known_plugin :: "hot_reload \<Rightarrow> string option \<Rightarrow> jsvalue option" where
  "known_plugin s d =
     (case d of
        None \<Rightarrow> None
      | Some n \<Rightarrow>
          if n = [] then None
          else (case get_property (map_of (pluginNames s)) n of
                  None \<Rightarrow> None
                | Some (Own i) \<Rightarrow> if i = [] then None else Some (Str i)
                | Some (Inherited m) \<Rightarrow> Some (Member m)))"

text \<open>
  The promise of \<^verbatim>\<open>this.checkVersion(plugin)\<close> (line 105) is dropped, and with it its
  outcome.
\<close>

definition onFileChange :: "string \<Rightarrow> hot_reload \<Rightarrow> hot_reload" where
  "onFileChange filename s =
     (if \<not> startsWith filename (pluginFolder (app s) @ ''/'') then s
      else
        (case pop (split_slash filename) of (base, path1) \<Rightarrow>
        (case pop path1 of (d, path) \<Rightarrow>
           if length path = 1 \<and> d = Some ''plugins'' then watch filename s
           else if length path \<noteq> 2 then s
           else
             (let plugin = known_plugin s d in
              if base = Some ''manifest.json'' \<or> base = Some ''.hotreload'' \<or> base = Some ''.git''
                 \<or> plugin = None
              then emit ReindexInvoked s
              else if base \<noteq> Some ''main.js'' \<and> base \<noteq> Some ''styles.css'' then s
              else (case plugin of
                      Some v \<Rightarrow> snd (checkVersion v s)
                    | None \<Rightarrow> emit ReindexInvoked s)))))"

section \<open>The reload cycle\<close>

text \<open>
  The host's asynchronous operations are parameters: each takes the host's state and
  returns its result with the state it leaves.  \<^verbatim>\<open>disablePlugin\<close> and \<^verbatim>\<open>enablePlugin\<close>
  return the error they reject with, if any; \<^verbatim>\<open>openTabById\<close> returns the tab or
  \<^verbatim>\<open>null\<close>, or throws.  An \<^verbatim>\<open>async\<close> function returns \<open>Inl e\<close> when its promise rejects
  with \<open>e\<close> and \<open>Inr ()\<close> when it fulfils, together with the state it leaves behind.
\<close>

record host =
  disablePlugin :: "plugin \<Rightarrow> app \<Rightarrow> error option \<times> app"
  enablePlugin :: "plugin \<Rightarrow> app \<Rightarrow> error option \<times> app"
  openTabById :: "plugin \<Rightarrow> app \<Rightarrow> (error + tab option) \<times> app"

definition host_call :: "(app \<Rightarrow> 'r \<times> app) \<Rightarrow> hot_reload \<Rightarrow> 'r \<times> hot_reload" where
  "host_call f s = (case f (app s) of (r, a) \<Rightarrow> (r, s\<lparr>app := a\<rparr>))"

definition setItem :: "string \<Rightarrow> string \<Rightarrow> hot_reload \<Rightarrow> hot_reload" where
  "setItem k v s =
     emit (SetItem k v) (s\<lparr>app := (app s)\<lparr>localStorage := (localStorage (app s))(k \<mapsto> v)\<rparr>\<rparr>)"

definition removeItem :: "string \<Rightarrow> hot_reload \<Rightarrow> hot_reload" where
  "removeItem k s =
     emit (RemoveItem k) (s\<lparr>app := (app s)\<lparr>localStorage := (localStorage (app s))(k := None)\<rparr>\<rparr>)"

subsection \<open>showNotice (lines 155-160)\<close>

definition showNotice :: "string \<Rightarrow> hot_reload \<Rightarrow> hot_reload" where
  "showNotice message s =
     (let s1 = emit (ConsoleDebug [message]) s in
      if shouldShowReloadNotice (settings s1) then emit (NewNotice message) s1 else s1)"

subsection \<open>preventSourcemapStripping (lines 203-213)\<close>

text \<open>Returns whether there is an \<^verbatim>\<open>uninstall\<close> function to call later.\<close>

definition preventSourcemapStripping :: "plugin \<Rightarrow> hot_reload \<Rightarrow> bool \<times> hot_reload" where
  "preventSourcemapStripping pluginName s =
     (if apiVersion_1_6 (app s) then (True, emit (PatchRead pluginName) s) else (False, s))"

subsection \<open>reload (lines 116-153)\<close>

definition reloaded_message :: "plugin \<Rightarrow> string" where
  "reloaded_message plugin = ''Plugin '' @ [CHR 0x22] @ plugin @ [CHR 0x22] @ '' has been reloaded''"

text \<open>Lines 122-130: whether the plugin's settings tab is the active one, and its scroll offsets.\<close>

definition settingTabState :: "plugin \<Rightarrow> hot_reload \<Rightarrow> bool \<times> int \<times> int" where
  "settingTabState plugin s =
     (case activeTab (app s) of
        None \<Rightarrow> (False, 0, 0)
      | Some t \<Rightarrow> if tab_id t = plugin then (True, scrollTop t, scrollLeft t) else (False, 0, 0))"

text \<open>The body of the \<^verbatim>\<open>try\<close> block (lines 140-146).\<close>

definition try_block ::
  "host \<Rightarrow> plugin \<Rightarrow> bool \<times> int \<times> int \<Rightarrow> hot_reload \<Rightarrow> (error + unit) \<times> hot_reload" where
  "try_block h plugin tabState s =
     (case tabState of (isSettingTabActive, settingTabScrollTop, settingTabScrollLeft) \<Rightarrow>
      (case host_call (enablePlugin h plugin) (emit (EnablePlugin plugin) s) of
         (Some e, s1) \<Rightarrow> (Inl e, s1)
       | (None, s1) \<Rightarrow>
           if isSettingTabActive \<and> settingShown (app s1) \<and> activeTab (app s1) = None
              \<and> shouldReopenActiveSettingsTab (settings s1)
           then (case host_call (openTabById h plugin) (emit (OpenTabById plugin) s1) of
                   (Inl e, s2) \<Rightarrow> (Inl e, s2)
                 | (Inr None, s2) \<Rightarrow> (Inr (), s2)
                 | (Inr (Some settingTab), s2) \<Rightarrow>
                     (Inr (), emit (ScrollTo plugin settingTabScrollLeft settingTabScrollTop) s2))
           else (Inr (), s1)))"

text \<open>The \<^verbatim>\<open>finally\<close> block (lines 147-151).\<close>

definition finally_block :: "string option \<Rightarrow> bool \<Rightarrow> plugin \<Rightarrow> hot_reload \<Rightarrow> hot_reload" where
  "finally_block oldDebug uninstall plugin s =
     (let s1 = (case oldDebug of
                  None \<Rightarrow> removeItem ''debug-plugin'' s
                | Some v \<Rightarrow> setItem ''debug-plugin'' v s)
      in if uninstall then emit (Uninstall plugin) s1 else s1)"

definition reload :: "host \<Rightarrow> plugin \<Rightarrow> hot_reload \<Rightarrow> (error + unit) \<times> hot_reload" where
  "reload h plugin s =
     (if plugin \<notin> host_enabledPlugins (app s) then (Inr (), s)
      else
        (let tabState = settingTabState plugin s in
         case host_call (disablePlugin h plugin) (emit (DisablePlugin plugin) s) of
           (Some e, s1) \<Rightarrow> (Inl e, s1)
         | (None, s1) \<Rightarrow>
             (let s2 = emit (ConsoleDebug [''disabled'', plugin]) s1;
                  oldDebug = localStorage (app s2) ''debug-plugin'';
                  s3 = setItem ''debug-plugin'' ''1'' s2
              in case preventSourcemapStripping plugin s3 of (uninstall, s4) \<Rightarrow>
                 (case try_block h plugin tabState s4 of
                    (Inl e, s5) \<Rightarrow> (Inl e, finally_block oldDebug uninstall plugin s5)
                  | (Inr u, s5) \<Rightarrow>
                      (Inr (), showNotice (reloaded_message plugin)
                                 (finally_block oldDebug uninstall plugin s5))))))"

text \<open>
  The action \<^verbatim>\<open>requestReload\<close> hands to the queue (line 111):
  \<^verbatim>\<open>() => this.reload(plugin).catch(console.error)\<close>.  \<^verbatim>\<open>console.error\<close> returns
  \<^verbatim>\<open>undefined\<close>, so the promise of \<^verbatim>\<open>.catch\<close> fulfils on either path.
\<close>

definition reload_action :: "host \<Rightarrow> plugin \<Rightarrow> hot_reload \<Rightarrow> (error + unit) \<times> hot_reload" where
  "reload_action h plugin s =
     (case reload h plugin s of
        (Inl e, s1) \<Rightarrow> (Inr (), emit (ConsoleError e) s1)
      | (Inr u, s1) \<Rightarrow> (Inr (), s1))"

section \<open>The serialized task queue (lines 215-224)\<close>

text \<open>
  \<^verbatim>\<open>taskQueue\<close> is written with promises, so the model has the promises the code creates:
  a heap of promises, each pending with the callbacks registered on it or settled with an
  outcome, and the queue of microtasks.  The rules are those of the language:
  \<^item> a callback registered on a pending promise waits there; registered on a settled
    promise, it becomes a microtask (\<open>subscribe\<close>);
  \<^item> settling a pending promise turns its callbacks into microtasks, in the order they were
    registered; settling a settled promise does nothing (\<open>settle\<close>);
  \<^item> microtasks run one at a time, first in first out (\<open>Tick\<close>).
  An \<open>action\<close> is what the function handed to \<^verbatim>\<open>run\<close> does when it is called: it throws,
  returns a plain value, or returns a promise of its own, which its own code settles later
  (\<open>Resolve\<close>).  An action that returns one of the queue's promises is outside the model,
  as is the extra microtask a resolution with a promise takes in an engine.  The promise
  that \<^verbatim>\<open>last.finally(...)\<close> returns is dropped by the code and has no place in the heap.

  \<open>events\<close> is the log of the run: \<open>Submitted p q a\<close> when \<^verbatim>\<open>run\<close> is called with action \<open>a\<close>,
  creates promise \<open>p\<close> and chains it after \<open>q\<close>, the value of \<^verbatim>\<open>last\<close> at that moment;
  \<open>Started p\<close> when that action is called; \<open>Awaiting p q\<close> when it has returned its own
  promise \<open>q\<close>; \<open>SettledP p oc\<close> when promise \<open>p\<close> settles with outcome \<open>oc\<close>.
\<close>

type_synonym pid = nat

datatype 'v outcome = Fulfilled 'v | Rejected error

datatype 'v action = Throws error | Returns 'v | ReturnsPromise

datatype 'v reaction = RunAction "'v action" pid | Follow pid

datatype 'v pstate = Pending "'v reaction list" | Settled "'v outcome"

datatype 'v qevent =
    Submitted pid pid "'v action"
  | Started pid
  | Awaiting pid pid
  | SettledP pid "'v outcome"

record 'v runtime =
  heap :: "pid \<rightharpoonup> 'v pstate"
  fresh :: pid
  jobs :: "('v reaction \<times> 'v outcome) list"
  last_promise :: pid
  own :: "pid set"
  events :: "'v qevent list"

text \<open>
  \<^verbatim>\<open>let last = Promise.resolve()\<close>: promise 0, fulfilled with \<^verbatim>\<open>undefined\<close>.
\<close>

definition taskQueue :: "'v \<Rightarrow> 'v runtime" where
  "taskQueue undefined_value =
     \<lparr>heap = [0 \<mapsto> Settled (Fulfilled undefined_value)], fresh = 1, jobs = [],
      last_promise = 0, own = {}, events = []\<rparr>"

definition settle :: "pid \<Rightarrow> 'v outcome \<Rightarrow> 'v runtime \<Rightarrow> 'v runtime" where
  "settle p oc r =
     (case heap r p of
        Some (Pending rs) \<Rightarrow>
          r\<lparr>heap := (heap r)(p \<mapsto> Settled oc),
            jobs := jobs r @ map (\<lambda>x. (x, oc)) rs,
            events := events r @ [SettledP p oc]\<rparr>
      | _ \<Rightarrow> r)"

definition subscribe :: "pid \<Rightarrow> 'v reaction \<Rightarrow> 'v runtime \<Rightarrow> 'v runtime" where
  "subscribe p x r =
     (case heap r p of
        Some (Pending rs) \<Rightarrow> r\<lparr>heap := (heap r)(p \<mapsto> Pending (rs @ [x]))\<rparr>
      | Some (Settled oc) \<Rightarrow> r\<lparr>jobs := jobs r @ [(x, oc)]\<rparr>
      | None \<Rightarrow> r)"

definition new_promise :: "'v runtime \<Rightarrow> pid \<times> 'v runtime" where
  "new_promise r = (fresh r, r\<lparr>heap := (heap r)(fresh r \<mapsto> Pending []), fresh := Suc (fresh r)\<rparr>)"

text \<open>
  The second branch of line 218, \<^verbatim>\<open>last = new Promise((res, rej) => last.finally(...))\<close>: the
  executor runs at once and registers the callback on the old \<^verbatim>\<open>last\<close>; then \<^verbatim>\<open>last\<close> is
  the new promise.
\<close>

definition chain_action :: "'v action \<Rightarrow> 'v runtime \<Rightarrow> 'v runtime" where
  "chain_action a r =
     (case new_promise r of (p, r1) \<Rightarrow>
        (subscribe (last_promise r) (RunAction a p) r1)
          \<lparr>last_promise := p, events := events r1 @ [Submitted p (last_promise r) a]\<rparr>)"

text \<open>
  The callback of line 220, \<^verbatim>\<open>() => { try { res(action()); } catch(e) { rej(e); } }\<close>, for the
  promise \<open>p\<close> it resolves.
\<close>

definition call_action :: "'v action \<Rightarrow> pid \<Rightarrow> 'v runtime \<Rightarrow> 'v runtime" where
  "call_action a p r =
     (let r1 = r\<lparr>events := events r @ [Started p]\<rparr> in
      case a of
        Throws e \<Rightarrow> settle p (Rejected e) r1
      | Returns v \<Rightarrow> settle p (Fulfilled v) r1
      | ReturnsPromise \<Rightarrow>
          (case new_promise r1 of (q, r2) \<Rightarrow>
             subscribe q (Follow p)
               (r2\<lparr>own := insert q (own r2), events := events r2 @ [Awaiting p q]\<rparr>)))"

definition react :: "'v reaction \<Rightarrow> 'v outcome \<Rightarrow> 'v runtime \<Rightarrow> 'v runtime" where
  "react x oc r = (case x of RunAction a p \<Rightarrow> call_action a p r | Follow p \<Rightarrow> settle p oc r)"

text \<open>
  The function \<^verbatim>\<open>taskQueue\<close> returns (line 217): without an action it returns \<^verbatim>\<open>last\<close> and
  changes nothing; with one it returns the new promise.
\<close>

definition run :: "'v action option \<Rightarrow> 'v runtime \<Rightarrow> pid \<times> 'v runtime" where
  "run action r =
     (case action of
        None \<Rightarrow> (last_promise r, r)
      | Some a \<Rightarrow> (fresh r, chain_action a r))"

text \<open>
  What can happen to a queue: a call of \<^verbatim>\<open>run\<close>, the next microtask, and the settling of
  a promise that a started action returned, in any order.
\<close>

datatype 'v input = Run "'v action option" | Tick | Resolve pid "'v outcome"

fun step :: "'v runtime \<Rightarrow> 'v input \<Rightarrow> 'v runtime" where
  "step r (Run action) = snd (run action r)"
| "step r Tick = (case jobs r of [] \<Rightarrow> r | (x, oc) # js \<Rightarrow> react x oc (r\<lparr>jobs := js\<rparr>))"
| "step r (Resolve q oc) = (if q \<in> own r then settle q oc r else r)"

definition execute :: "'v \<Rightarrow> 'v input list \<Rightarrow> 'v runtime" where
  "execute u ins = foldl step (taskQueue u) ins"

text \<open>Running \<open>n\<close> microtasks.\<close>

definition drain :: "nat \<Rightarrow> 'v runtime \<Rightarrow> 'v runtime" where
  "drain n r = foldl step r (replicate n Tick)"

subsection \<open>Vocabulary for the log\<close>

text \<open>
  \<open>guarded P Q evs\<close>: every event of \<open>evs\<close> that satisfies \<open>Q\<close> comes after one that
  satisfies \<open>P\<close>.  \<open>submitted\<close> lists the promises \<^verbatim>\<open>run\<close> created, in the order of the
  calls, and \<open>starts\<close> the promises whose action was called, in the order of the calls.
  \<open>own_outcome evs p a oc\<close>: the outcome \<open>oc\<close> is what action \<open>a\<close> of promise \<open>p\<close> itself
  produced.
\<close>

definition is_started :: "pid \<Rightarrow> 'v qevent \<Rightarrow> bool" where
  "is_started p e = (case e of Started q \<Rightarrow> q = p | _ \<Rightarrow> False)"

definition is_settled :: "pid \<Rightarrow> 'v qevent \<Rightarrow> bool" where
  "is_settled p e = (case e of SettledP q oc \<Rightarrow> q = p | _ \<Rightarrow> False)"

fun submitted :: "'v qevent list \<Rightarrow> pid list" where
  "submitted [] = []"
| "submitted (e # es) = (case e of Submitted p q a \<Rightarrow> p # submitted es | _ \<Rightarrow> submitted es)"

fun guarded :: "('a \<Rightarrow> bool) \<Rightarrow> ('a \<Rightarrow> bool) \<Rightarrow> 'a list \<Rightarrow> bool" where
  "guarded P Q [] = True"
| "guarded P Q (x # xs) = (if Q x then False else if P x then True else guarded P Q xs)"

fun starts :: "'v qevent list \<Rightarrow> pid list" where
  "starts [] = []"
| "starts (e # es) = (case e of Started p \<Rightarrow> p # starts es | _ \<Rightarrow> starts es)"

fun targets :: "'v reaction list \<Rightarrow> pid list" where
  "targets [] = []"
| "targets (x # xs) = (case x of RunAction a p \<Rightarrow> p # targets xs | Follow p \<Rightarrow> targets xs)"

subsection \<open>Invariants of the queue\<close>

definition inv_heap :: "'v runtime \<Rightarrow> bool" where
  "inv_heap r \<longleftrightarrow>
     (\<exists>oc. heap r 0 = Some (Settled oc))
   \<and> 0 < fresh r \<and> last_promise r < fresh r \<and> last_promise r \<notin> own r
   \<and> (\<forall>q \<in> own r. 0 < q \<and> q < fresh r)
   \<and> (\<forall>p. p < fresh r \<longleftrightarrow> heap r p \<noteq> None)"

definition inv_sub :: "'v runtime \<Rightarrow> bool" where
  "inv_sub r \<longleftrightarrow>
     (\<forall>p q a. Submitted p q a \<in> set (events r)
        \<longrightarrow> 0 < p \<and> p < fresh r \<and> p \<notin> own r \<and> q < fresh r)
   \<and> (\<forall>p q a q' a'. Submitted p q a \<in> set (events r) \<and> Submitted p q' a' \<in> set (events r)
         \<longrightarrow> q = q' \<and> a = a')
   \<and> (\<forall>p. Started p \<in> set (events r) \<longrightarrow> p < fresh r)"

definition inv_settled :: "'v runtime \<Rightarrow> bool" where
  "inv_settled r \<longleftrightarrow>
     (\<forall>p oc. SettledP p oc \<in> set (events r) \<longrightarrow> heap r p = Some (Settled oc))
   \<and> (\<forall>p oc. heap r p = Some (Settled oc) \<and> p \<noteq> 0 \<longrightarrow> SettledP p oc \<in> set (events r))"

definition inv_run :: "'v runtime \<Rightarrow> bool" where
  "inv_run r \<longleftrightarrow>
     (\<forall>q rs a p. heap r q = Some (Pending rs) \<and> RunAction a p \<in> set rs
         \<longrightarrow> Submitted p q a \<in> set (events r))
   \<and> (\<forall>a p oc. (RunAction a p, oc) \<in> set (jobs r)
         \<longrightarrow> (\<exists>q. Submitted p q a \<in> set (events r) \<and> (q = 0 \<or> SettledP q oc \<in> set (events r))))"

definition inv_follow :: "'v runtime \<Rightarrow> bool" where
  "inv_follow r \<longleftrightarrow>
     (\<forall>q rs p. heap r q = Some (Pending rs) \<and> Follow p \<in> set rs
         \<longrightarrow> Awaiting p q \<in> set (events r))
   \<and> (\<forall>p oc. (Follow p, oc) \<in> set (jobs r)
         \<longrightarrow> (\<exists>q. Awaiting p q \<in> set (events r) \<and> SettledP q oc \<in> set (events r)))
   \<and> (\<forall>p q. Awaiting p q \<in> set (events r)
         \<longrightarrow> q \<in> own r \<and> Started p \<in> set (events r)
             \<and> (\<exists>q0. Submitted p q0 ReturnsPromise \<in> set (events r)))"

definition consistent :: "'v runtime \<Rightarrow> bool" where
  "consistent r \<longleftrightarrow> inv_heap r \<and> inv_sub r \<and> inv_settled r \<and> inv_run r \<and> inv_follow r"

definition ordered :: "'v runtime \<Rightarrow> bool" where
  "ordered r \<longleftrightarrow>
     (\<forall>p q a. Submitted p q a \<in> set (events r) \<and> q \<noteq> 0
        \<longrightarrow> guarded (is_settled q) (is_started p) (events r))
   \<and> (\<forall>p. p \<notin> own r \<longrightarrow> guarded (is_started p) (is_settled p) (events r))"

definition chained :: "'v runtime \<Rightarrow> bool" where
  "chained r \<longleftrightarrow>
     last_promise r = last (0 # submitted (events r))
   \<and> (\<forall>i < length (submitted (events r)).
         \<exists>a. Submitted (submitted (events r) ! i) ((0 # submitted (events r)) ! i) a
               \<in> set (events r))"

definition own_outcome :: "'v qevent list \<Rightarrow> pid \<Rightarrow> 'v action \<Rightarrow> 'v outcome \<Rightarrow> bool" where
  "own_outcome evs p a oc =
     (case a of
        Throws e \<Rightarrow> oc = Rejected e
      | Returns v \<Rightarrow> oc = Fulfilled v
      | ReturnsPromise \<Rightarrow> (\<exists>q. Awaiting p q \<in> set evs \<and> SettledP q oc \<in> set evs))"

definition fated :: "'v runtime \<Rightarrow> bool" where
  "fated r \<longleftrightarrow>
     (\<forall>p q a oc. Submitted p q a \<in> set (events r) \<and> SettledP p oc \<in> set (events r)
        \<longrightarrow> own_outcome (events r) p a oc)"

definition pending_start :: "'v runtime \<Rightarrow> bool" where
  "pending_start r \<longleftrightarrow>
     (\<forall>p q a. Submitted p q a \<in> set (events r) \<longrightarrow>
        Started p \<in> set (events r)
        \<or> (\<exists>rs. heap r q = Some (Pending rs) \<and> RunAction a p \<in> set rs)
        \<or> (\<exists>oc. (RunAction a p, oc) \<in> set (jobs r)))"

definition pending_follow :: "'v runtime \<Rightarrow> bool" where
  "pending_follow r \<longleftrightarrow>
     (\<forall>p q. Awaiting p q \<in> set (events r) \<longrightarrow>
        (\<exists>oc. heap r p = Some (Settled oc))
        \<or> (\<exists>rs. heap r q = Some (Pending rs) \<and> Follow p \<in> set rs)
        \<or> (\<exists>oc. (Follow p, oc) \<in> set (jobs r)))"

definition once :: "'v runtime \<Rightarrow> bool" where
  "once r \<longleftrightarrow>
     distinct (starts (events r))
   \<and> distinct (targets (map fst (jobs r)))
   \<and> (\<forall>p \<in> set (targets (map fst (jobs r))). Started p \<notin> set (events r))
   \<and> (\<forall>q rs. heap r q = Some (Pending rs) \<longrightarrow>
         distinct (targets rs) \<and> (\<forall>p \<in> set (targets rs). Started p \<notin> set (events r)))
   \<and> (\<forall>p q q'. Awaiting p q \<in> set (events r) \<and> Awaiting p q' \<in> set (events r) \<longrightarrow> q = q')"

definition traced :: "'v runtime \<Rightarrow> bool" where
  "traced r \<longleftrightarrow>
     (\<forall>p. Started p \<in> set (events r) \<longrightarrow> (\<exists>q a. Submitted p q a \<in> set (events r)))
   \<and> (\<forall>p q. Awaiting p q \<in> set (events r)
         \<longrightarrow> guarded (is_settled q) (is_settled p) (events r))"


section \<open>The plugin over time\<close>

text \<open>
  The plugin as constructed (field initialisers, lines 8-16), and the calls that reach it
  afterwards: its own entry points, a change of its settings from the settings tab, and
  any change the host makes to its own state in between.
\<close>

datatype call =
    CallRequestReload jsvalue
  | CallCheckVersion jsvalue
  | CallCheckVersions
  | CallGetPluginNames
  | CallOnFileChange string
  | CallWatch path
  | CallReloadAction host plugin
  | ChangeSettings settings
  | HostChange "app \<Rightarrow> app"

fun perform :: "call \<Rightarrow> hot_reload \<Rightarrow> hot_reload" where
  "perform (CallRequestReload plugin) s = snd (requestReload plugin s)"
| "perform (CallCheckVersion plugin) s = snd (checkVersion plugin s)"
| "perform CallCheckVersions s = snd (checkVersions s)"
| "perform CallGetPluginNames s = snd (getPluginNames s)"
| "perform (CallOnFileChange filename) s = onFileChange filename s"
| "perform (CallWatch p) s = watch p s"
| "perform (CallReloadAction h plugin) s = snd (reload_action h plugin s)"
| "perform (ChangeSettings st) s = s\<lparr>settings := st\<rparr>"
| "perform (HostChange f) s = s\<lparr>app := f (app s)\<rparr>"

definition new_plugin :: "settings \<Rightarrow> app \<Rightarrow> hot_reload" where
  "new_plugin st a =
     \<lparr>settings = st, statCache = Map.empty, pluginReloaders = Map.empty, pluginNames = [],
      enabledPlugins = {}, app = a, trace = [], reloadersMade = 0\<rparr>"

section \<open>Vocabulary of the properties\<close>

text \<open>
  The reloaders made for a plugin by \<^verbatim>\<open>debounce\<close>, counted in a trace; and a step from \<open>s\<close> to
  \<open>s'\<close> under which, for every plugin, either the stored reloader and the number made stay
  as they are, or there was none stored, there is one now, and one more has been made.
\<close>

definition is_created_for :: "plugin \<Rightarrow> effect \<Rightarrow> bool" where
  "is_created_for p e = (case e of DebounceCreated r q t \<Rightarrow> q = p | _ \<Rightarrow> False)"

definition created_for :: "plugin \<Rightarrow> effect list \<Rightarrow> nat" where
  "created_for p evs = length (filter (is_created_for p) evs)"

definition grows :: "hot_reload \<Rightarrow> hot_reload \<Rightarrow> bool" where
  "grows s s' = (\<forall>p.
      (pluginReloaders s' p = pluginReloaders s p
         \<and> created_for p (trace s') = created_for p (trace s))
      \<or> (pluginReloaders s p = None \<and> pluginReloaders s' p \<noteq> None
         \<and> created_for p (trace s') = Suc (created_for p (trace s))))"


text \<open>The plugins for which \<^verbatim>\<open>requestReload\<close> was called, in call order.\<close>

fun reload_requests :: "effect list \<Rightarrow> jsvalue list" where
  "reload_requests [] = []"
| "reload_requests (e # es) =
     (case e of ReloadRequested p \<Rightarrow> p # reload_requests es | _ \<Rightarrow> reload_requests es)"

text \<open>
  The test of line 70, read in a given state: the file can be read, has a cached stat,
  and the two modification times differ.
\<close>

definition real_change :: "hot_reload \<Rightarrow> path \<Rightarrow> bool" where
  "real_change s p =
     (case adapter_stat (app s) p of
        None \<Rightarrow> False
      | Some st \<Rightarrow> (case statCache s p of None \<Rightarrow> False | Some old \<Rightarrow> mtime st \<noteq> mtime old))"

text \<open>
  A reload request for the id \<open>i\<close> throws in state \<open>s\<close>: the id is opted in, no reloader
  is stored for it, and line 110 finds a member of \<^verbatim>\<open>Object.prototype\<close> that cannot be
  called without a receiver.
\<close>

definition request_throws :: "hot_reload \<Rightarrow> plugin \<Rightarrow> bool" where
  "request_throws s i \<longleftrightarrow>
     i \<in> enabledPlugins s \<and> pluginReloaders s i = None
     \<and> i \<in> set object_prototype \<and> i \<notin> set returns_without_receiver"

text \<open>
  The plugin is recorded in \<^verbatim>\<open>pluginNames\<close> under its own id: an entry has the id as its
  key exactly when it has it as its value.
\<close>

definition recorded_under_id :: "plugin \<Rightarrow> (string \<times> plugin) list \<Rightarrow> bool" where
  "recorded_under_id plugin names = list_all (\<lambda>(d, i). (d = plugin) = (i = plugin)) names"

text \<open>The segments of an event path below the plugin folder and its slash.\<close>

definition below_root :: "hot_reload \<Rightarrow> string \<Rightarrow> string list" where
  "below_root s filename = split_slash (drop (length (pluginFolder (app s)) + 1) filename)"

text \<open>The calls a step added to the trace.\<close>

definition new_events :: "hot_reload \<Rightarrow> hot_reload \<Rightarrow> effect list" where
  "new_events s s' = drop (length (trace s)) (trace s')"

definition is_storage_write :: "effect \<Rightarrow> bool" where
  "is_storage_write e = (case e of SetItem k v \<Rightarrow> True | RemoveItem k \<Rightarrow> True | _ \<Rightarrow> False)"

definition is_notice :: "effect \<Rightarrow> bool" where
  "is_notice e = (case e of NewNotice m \<Rightarrow> True | _ \<Rightarrow> False)"

definition is_debounce :: "effect \<Rightarrow> bool" where
  "is_debounce e =
     (case e of DebounceCreated r p t \<Rightarrow> True | DebounceInvoked r \<Rightarrow> True | _ \<Rightarrow> False)"

text \<open>
  The outcome of the promise an \<^verbatim>\<open>async\<close> function returned, as the task queue sees it.
\<close>

definition as_outcome :: "error + unit \<Rightarrow> unit outcome" where
  "as_outcome res = (case res of Inl e \<Rightarrow> Rejected e | Inr u \<Rightarrow> Fulfilled u)"

text \<open>The write of line 149 for a remembered value \<^verbatim>\<open>oldDebug\<close>.\<close>

definition restore_write :: "string option \<Rightarrow> effect" where
  "restore_write oldDebug =
     (case oldDebug of None \<Rightarrow> RemoveItem ''debug-plugin'' | Some v \<Rightarrow> SetItem ''debug-plugin'' v)"

text \<open>
  The state in which the \<^verbatim>\<open>try\<close> block starts when \<^verbatim>\<open>disablePlugin\<close> has fulfilled and
  left the host in \<open>a1\<close> (lines 133-138).
\<close>

definition before_try :: "plugin \<Rightarrow> app \<Rightarrow> hot_reload \<Rightarrow> hot_reload" where
  "before_try plugin a1 s =
     snd (preventSourcemapStripping plugin
       (setItem ''debug-plugin'' ''1''
         (emit (ConsoleDebug [''disabled'', plugin]) (emit (DisablePlugin plugin) s\<lparr>app := a1\<rparr>))))"


section \<open>Example hosts and states\<close>

text \<open>
  A host whose operations succeed, one whose \<^verbatim>\<open>enablePlugin\<close> rejects, and one whose
  \<^verbatim>\<open>disablePlugin\<close> rejects.
\<close>

definition host_ok :: host where
  "host_ok =
     \<lparr>disablePlugin = (\<lambda>p a. (None, a\<lparr>host_enabledPlugins := host_enabledPlugins a - {p}\<rparr>)),
      enablePlugin = (\<lambda>p a. (None, a\<lparr>host_enabledPlugins := insert p (host_enabledPlugins a)\<rparr>)),
      openTabById = (\<lambda>p a. (Inr None, a))\<rparr>"

definition host_enable_fails :: host where
  "host_enable_fails = host_ok\<lparr>enablePlugin := (\<lambda>p a. (Some (Error ''enable failed''), a))\<rparr>"

definition host_disable_fails :: host where
  "host_disable_fails = host_ok\<lparr>disablePlugin := (\<lambda>p a. (Some (Error ''disable failed''), a))\<rparr>"


definition example_settings :: settings where
  "example_settings = \<lparr>shouldReopenActiveSettingsTab = True, shouldShowReloadNotice = True\<rparr>"

text \<open>The text of the members as one engine prints it.\<close>

definition native_text :: "string \<Rightarrow> string" where
  "native_text n =
     (if n = ''__proto__'' then ''[object Object]''
      else ''function '' @ (if n = ''constructor'' then ''Object'' else n) @ ''() { [native code] }'')"

definition example_app :: app where
  "example_app =
     \<lparr>manifests = [(''foo'', \<lparr>plugin_id = ''foo'', dir = ''.obsidian/plugins/foo''\<rparr>)],
      host_enabledPlugins = {''foo''},
      pluginFolder = ''.obsidian/plugins'',
      activeTab = None,
      settingShown = False,
      localStorage = Map.empty,
      watchers = {},
      adapter_stat =
        [''.obsidian/plugins/foo/main.js'' \<mapsto> \<lparr>ftype = File, ctime = 0, mtime = 2, fsize = 10\<rparr>],
      vault_exists = (\<lambda>p. p = ''.obsidian/plugins/foo/.hotreload''),
      apiVersion_1_6 = True,
      watchNeeded = False,
      isSymlink = (\<lambda>p. False),
      memberKey = native_text\<rparr>"

text \<open>\<^verbatim>\<open>foo\<close> is installed and opted in; its \<^verbatim>\<open>main.js\<close> was cached at time 1 and is now at 2.\<close>

definition example_state :: hot_reload where
  "example_state =
     \<lparr>settings = example_settings,
      statCache =
        [''.obsidian/plugins/foo/main.js'' \<mapsto> \<lparr>ftype = File, ctime = 0, mtime = 1, fsize = 10\<rparr>],
      pluginReloaders = Map.empty,
      pluginNames = [(''foo'', ''foo'')],
      enabledPlugins = {''foo''},
      app = example_app,
      trace = [],
      reloadersMade = 0\<rparr>"

text \<open>The same plugin after the host has dropped its manifest; the cache still holds its file.\<close>

definition uninstalled_state :: hot_reload where
  "uninstalled_state = example_state\<lparr>app := example_app\<lparr>manifests := []\<rparr>\<rparr>"

text \<open>The same plugin while it is switched off in the host.\<close>

definition switched_off_state :: hot_reload where
  "switched_off_state = example_state\<lparr>app := example_app\<lparr>host_enabledPlugins := {}\<rparr>\<rparr>"

text \<open>
  The same plugin with no marker on disk and not in \<^verbatim>\<open>enabledPlugins\<close>; and a scan followed
  by two reload requests.
\<close>

definition not_opted_in_state :: hot_reload where
  "not_opted_in_state =
     example_state\<lparr>enabledPlugins := {}, app := example_app\<lparr>vault_exists := (\<lambda>p. False)\<rparr>\<rparr>"

text \<open>
  A platform that needs watchers, nothing watched yet: a new folder \<^verbatim>\<open>bar\<close> has appeared
  in the plugin folder; and the same with a plain file \<^verbatim>\<open>notes.md\<close> instead.
\<close>

definition new_folder_state :: hot_reload where
  "new_folder_state =
     example_state\<lparr>app := example_app\<lparr>watchNeeded := True,
       adapter_stat := (adapter_stat example_app)
         (''.obsidian/plugins/bar'' \<mapsto> \<lparr>ftype = Folder, ctime = 0, mtime = 0, fsize = 0\<rparr>)\<rparr>\<rparr>"

definition plain_file_state :: hot_reload where
  "plain_file_state =
     example_state\<lparr>app := example_app\<lparr>watchNeeded := True,
       adapter_stat := (adapter_stat example_app)
         (''.obsidian/plugins/notes.md'' \<mapsto> \<lparr>ftype = File, ctime = 0, mtime = 0, fsize = 7\<rparr>)\<rparr>\<rparr>"

text \<open>
  A host with one plugin, whose id is \<^verbatim>\<open>valueOf\<close> and which has its opt-in marker; the
  state of the plugin after it was constructed and has scanned (lines 25 and 81-94), and
  both tracked files have changed on disk since.
\<close>

definition member_named_app :: app where
  "member_named_app =
     example_app\<lparr>
       manifests := [(''valueOf'', \<lparr>plugin_id = ''valueOf'', dir = ''.obsidian/plugins/valueOf''\<rparr>)],
       adapter_stat :=
         [''.obsidian/plugins/valueOf/main.js'' \<mapsto> \<lparr>ftype = File, ctime = 0, mtime = 1, fsize = 10\<rparr>,
          ''.obsidian/plugins/valueOf/styles.css'' \<mapsto> \<lparr>ftype = File, ctime = 0, mtime = 1, fsize = 5\<rparr>],
       vault_exists := (\<lambda>p. p = ''.obsidian/plugins/valueOf/.hotreload'')\<rparr>"

definition member_named_state :: hot_reload where
  "member_named_state =
     fold perform
       [CallGetPluginNames,
        HostChange (\<lambda>a. a\<lparr>adapter_stat :=
          [''.obsidian/plugins/valueOf/main.js'' \<mapsto> \<lparr>ftype = File, ctime = 0, mtime = 2, fsize = 11\<rparr>,
           ''.obsidian/plugins/valueOf/styles.css'' \<mapsto> \<lparr>ftype = File, ctime = 0, mtime = 2, fsize = 6\<rparr>]\<rparr>)]
       (new_plugin example_settings member_named_app)"

definition two_requests :: "call list" where
  "two_requests =
     [CallGetPluginNames, CallRequestReload (Str ''foo''), CallRequestReload (Str ''foo'')]"


section \<open>Properties\<close>

subsection \<open>The serialized task queue\<close>

lemma consistent_init: "consistent (taskQueue u)"
  by (simp add: consistent_def taskQueue_def inv_heap_def inv_sub_def inv_settled_def inv_run_def
      inv_follow_def)

text \<open>What the operations do to a state whose heap is known at the promise they touch.\<close>

lemma settle_pending:
  "heap r p = Some (Pending rs) \<Longrightarrow>
     settle p oc r = r\<lparr>heap := (heap r)(p \<mapsto> Settled oc),
                         jobs := jobs r @ map (\<lambda>x. (x, oc)) rs,
                         events := events r @ [SettledP p oc]\<rparr>"
  by (simp add: settle_def)

lemma settle_settled: "heap r p = Some (Settled oc') \<Longrightarrow> settle p oc r = r"
  by (simp add: settle_def)

lemma run_pending:
  assumes "heap r (last_promise r) = Some (Pending rs)" and "last_promise r < fresh r"
  shows "chain_action a r =
     r\<lparr>heap := (heap r)(fresh r \<mapsto> Pending [],
                          last_promise r \<mapsto> Pending (rs @ [RunAction a (fresh r)])),
       fresh := Suc (fresh r),
       last_promise := fresh r,
       events := events r @ [Submitted (fresh r) (last_promise r) a]\<rparr>"
  using assms by (simp add: chain_action_def new_promise_def subscribe_def)

lemma run_settled:
  assumes "heap r (last_promise r) = Some (Settled oc)" and "last_promise r < fresh r"
  shows "chain_action a r =
     r\<lparr>heap := (heap r)(fresh r \<mapsto> Pending []),
       fresh := Suc (fresh r),
       jobs := jobs r @ [(RunAction a (fresh r), oc)],
       last_promise := fresh r,
       events := events r @ [Submitted (fresh r) (last_promise r) a]\<rparr>"
  using assms by (simp add: chain_action_def new_promise_def subscribe_def)

lemma inv_heapD:
  assumes "inv_heap r"
  shows "last_promise r < fresh r" and "heap r (fresh r) = None"
    and "heap r (last_promise r) \<noteq> None" and "\<And>p. p < fresh r \<Longrightarrow> heap r p \<noteq> None"
    and "\<And>p. fresh r \<le> p \<Longrightarrow> heap r p = None"
    and "\<exists>oc. heap r 0 = Some (Settled oc)" and "last_promise r \<notin> own r"
    and "\<And>q. q \<in> own r \<Longrightarrow> 0 < q \<and> q < fresh r" and "0 < fresh r"
proof -
  from assms have a: "\<forall>p. p < fresh r \<longleftrightarrow> heap r p \<noteq> None" and l: "last_promise r < fresh r"
    and z: "\<exists>oc. heap r 0 = Some (Settled oc)" and o: "last_promise r \<notin> own r"
    and w: "\<forall>q \<in> own r. 0 < q \<and> q < fresh r" and f: "0 < fresh r"
    unfolding inv_heap_def by blast+
  show "last_promise r < fresh r" by (rule l)
  show "heap r (fresh r) = None" using a[rule_format, of "fresh r"] by simp
  show "heap r (last_promise r) \<noteq> None" using a[rule_format, of "last_promise r"] l by simp
  show "\<And>p. p < fresh r \<Longrightarrow> heap r p \<noteq> None" using a by simp
  show "\<And>p. fresh r \<le> p \<Longrightarrow> heap r p = None"
  proof -
    fix p assume "fresh r \<le> p"
    then have "\<not> p < fresh r" by simp
    with a[rule_format, of p] show "heap r p = None" by simp
  qed
  show "\<exists>oc. heap r 0 = Some (Settled oc)" by (rule z)
  show "last_promise r \<notin> own r" by (rule o)
  show "\<And>q. q \<in> own r \<Longrightarrow> 0 < q \<and> q < fresh r" using w by blast
  show "0 < fresh r" by (rule f)
qed

lemma inv_heapI:
  assumes "\<exists>oc. heap r 0 = Some (Settled oc)" "0 < fresh r" "last_promise r < fresh r"
    "last_promise r \<notin> own r" "\<And>q. q \<in> own r \<Longrightarrow> 0 < q \<and> q < fresh r"
    "\<And>p. p < fresh r \<Longrightarrow> heap r p \<noteq> None" "\<And>p. fresh r \<le> p \<Longrightarrow> heap r p = None"
  shows "inv_heap r"
  unfolding inv_heap_def using assms by (metis not_le_imp_less not_less)

lemma run_cases:
  assumes "inv_heap r"
  obtains (pending) rs where "heap r (last_promise r) = Some (Pending rs)"
  | (settled) oc where "heap r (last_promise r) = Some (Settled oc)"
proof -
  from inv_heapD(3)[OF assms] obtain st where "heap r (last_promise r) = Some st" by auto
  then show ?thesis using pending settled by (cases st) auto
qed

lemma last_pending_nonzero:
  "inv_heap r \<Longrightarrow> heap r (last_promise r) = Some (Pending rs) \<Longrightarrow> last_promise r \<noteq> 0"
  using inv_heapD(6)[of r] by (cases "last_promise r = 0") auto

lemma inv_heap_run:
  assumes i: "inv_heap r"
  shows "inv_heap (chain_action a r)"
proof -
  note d = inv_heapD[OF i]
  show ?thesis
  proof (rule run_cases[OF i])
    fix rs assume h: "heap r (last_promise r) = Some (Pending rs)"
    show ?thesis
      unfolding run_pending[OF h d(1)]
      using d last_pending_nonzero[OF i h]
      by (intro inv_heapI) (auto simp: less_Suc_eq)
  next
    fix oc assume h: "heap r (last_promise r) = Some (Settled oc)"
    show ?thesis
      unfolding run_settled[OF h d(1)]
      using d by (intro inv_heapI) (auto simp: less_Suc_eq)
  qed
qed

lemma inv_subD:
  assumes "inv_sub r"
  shows "\<And>p q a. Submitted p q a \<in> set (events r) \<Longrightarrow> 0 < p \<and> p < fresh r \<and> p \<notin> own r \<and> q < fresh r"
    and "\<And>p q a q' a'. Submitted p q a \<in> set (events r) \<Longrightarrow> Submitted p q' a' \<in> set (events r)
            \<Longrightarrow> q = q' \<and> a = a'"
    and "\<And>p. Started p \<in> set (events r) \<Longrightarrow> p < fresh r"
  using assms unfolding inv_sub_def by blast+

lemma inv_subI:
  assumes "\<And>p q a. Submitted p q a \<in> set (events r) \<Longrightarrow> 0 < p \<and> p < fresh r \<and> p \<notin> own r \<and> q < fresh r"
    and "\<And>p q a q' a'. Submitted p q a \<in> set (events r) \<Longrightarrow> Submitted p q' a' \<in> set (events r)
            \<Longrightarrow> q = q' \<and> a = a'"
    and "\<And>p. Started p \<in> set (events r) \<Longrightarrow> p < fresh r"
  shows "inv_sub r"
  using assms unfolding inv_sub_def by blast

lemma inv_settledD:
  assumes "inv_settled r"
  shows "\<And>p oc. SettledP p oc \<in> set (events r) \<Longrightarrow> heap r p = Some (Settled oc)"
    and "\<And>p oc. heap r p = Some (Settled oc) \<Longrightarrow> p \<noteq> 0 \<Longrightarrow> SettledP p oc \<in> set (events r)"
  using assms unfolding inv_settled_def by blast+

lemma inv_settledI:
  assumes "\<And>p oc. SettledP p oc \<in> set (events r) \<Longrightarrow> heap r p = Some (Settled oc)"
    and "\<And>p oc. heap r p = Some (Settled oc) \<Longrightarrow> p \<noteq> 0 \<Longrightarrow> SettledP p oc \<in> set (events r)"
  shows "inv_settled r"
  using assms unfolding inv_settled_def by blast

lemma inv_runD:
  assumes "inv_run r"
  shows "\<And>q rs a p. heap r q = Some (Pending rs) \<Longrightarrow> RunAction a p \<in> set rs
            \<Longrightarrow> Submitted p q a \<in> set (events r)"
    and "\<And>a p oc. (RunAction a p, oc) \<in> set (jobs r)
            \<Longrightarrow> \<exists>q. Submitted p q a \<in> set (events r) \<and> (q = 0 \<or> SettledP q oc \<in> set (events r))"
  using assms unfolding inv_run_def by blast+

lemma inv_runI:
  assumes "\<And>q rs a p. heap r q = Some (Pending rs) \<Longrightarrow> RunAction a p \<in> set rs
            \<Longrightarrow> Submitted p q a \<in> set (events r)"
    and "\<And>a p oc. (RunAction a p, oc) \<in> set (jobs r)
            \<Longrightarrow> \<exists>q. Submitted p q a \<in> set (events r) \<and> (q = 0 \<or> SettledP q oc \<in> set (events r))"
  shows "inv_run r"
  using assms unfolding inv_run_def by blast

lemma inv_followD:
  assumes "inv_follow r"
  shows "\<And>q rs p. heap r q = Some (Pending rs) \<Longrightarrow> Follow p \<in> set rs
            \<Longrightarrow> Awaiting p q \<in> set (events r)"
    and "\<And>p oc. (Follow p, oc) \<in> set (jobs r)
            \<Longrightarrow> \<exists>q. Awaiting p q \<in> set (events r) \<and> SettledP q oc \<in> set (events r)"
    and "\<And>p q. Awaiting p q \<in> set (events r)
            \<Longrightarrow> q \<in> own r \<and> Started p \<in> set (events r)
                \<and> (\<exists>q0. Submitted p q0 ReturnsPromise \<in> set (events r))"
  using assms unfolding inv_follow_def by blast+

lemma inv_followI:
  assumes "\<And>q rs p. heap r q = Some (Pending rs) \<Longrightarrow> Follow p \<in> set rs
            \<Longrightarrow> Awaiting p q \<in> set (events r)"
    and "\<And>p oc. (Follow p, oc) \<in> set (jobs r)
            \<Longrightarrow> \<exists>q. Awaiting p q \<in> set (events r) \<and> SettledP q oc \<in> set (events r)"
    and "\<And>p q. Awaiting p q \<in> set (events r)
            \<Longrightarrow> q \<in> own r \<and> Started p \<in> set (events r)
                \<and> (\<exists>q0. Submitted p q0 ReturnsPromise \<in> set (events r))"
  shows "inv_follow r"
  using assms unfolding inv_follow_def by blast

subsection \<open>The invariants under \<^verbatim>\<open>run\<close>\<close>

lemma run_events: "events (chain_action a r) = events r @ [Submitted (fresh r) (last_promise r) a]"
  by (simp add: chain_action_def new_promise_def subscribe_def split: option.splits pstate.splits)

lemma run_fresh: "fresh (chain_action a r) = Suc (fresh r)"
  by (simp add: chain_action_def new_promise_def subscribe_def split: option.splits pstate.splits)

lemma run_own: "own (chain_action a r) = own r"
  by (simp add: chain_action_def new_promise_def subscribe_def split: option.splits pstate.splits)

lemma inv_sub_run:
  assumes i: "inv_heap r" and s: "inv_sub r"
  shows "inv_sub (chain_action a r)"
proof (rule inv_subI, goal_cases)
  case (1 p q a')
  then show ?case
    using inv_subD(1)[OF s, of p q a'] inv_heapD(1,8)[OF i]
    by (auto simp: run_events run_fresh run_own less_Suc_eq)
next
  case (2 p q a' q' a'')
  then show ?case
    using inv_subD(2)[OF s, of p q a' q' a''] inv_subD(1)[OF s, of p]
    by (auto simp: run_events)
next
  case (3 p)
  then show ?case using inv_subD(3)[OF s, of p] by (auto simp: run_events run_fresh)
qed

lemma inv_settled_run:
  assumes i: "inv_heap r" and s: "inv_settled r"
  shows "inv_settled (chain_action a r)"
proof -
  note d = inv_heapD[OF i]
  show ?thesis
  proof (rule run_cases[OF i])
    fix rs assume h: "heap r (last_promise r) = Some (Pending rs)"
    show ?thesis
      unfolding run_pending[OF h d(1)]
    proof (rule inv_settledI, goal_cases)
      case (1 p oc)
      then show ?case using inv_settledD(1)[OF s, of p oc] d(2) h by auto
    next
      case (2 p oc)
      then show ?case using inv_settledD(2)[OF s, of p oc] by (auto split: if_splits)
    qed
  next
    fix oc assume h: "heap r (last_promise r) = Some (Settled oc)"
    show ?thesis
      unfolding run_settled[OF h d(1)]
    proof (rule inv_settledI, goal_cases)
      case (1 p oc)
      then show ?case using inv_settledD(1)[OF s, of p oc] d(2) by auto
    next
      case (2 p oc)
      then show ?case using inv_settledD(2)[OF s, of p oc] by (auto split: if_splits)
    qed
  qed
qed

lemma inv_run_run:
  assumes i: "inv_heap r" and s: "inv_run r" and t: "inv_settled r"
  shows "inv_run (chain_action a r)"
proof -
  note d = inv_heapD[OF i]
  show ?thesis
  proof (rule run_cases[OF i])
    fix rs assume h: "heap r (last_promise r) = Some (Pending rs)"
    show ?thesis
      unfolding run_pending[OF h d(1)]
    proof (rule inv_runI, goal_cases)
      case (1 q rs' a' p)
      then show ?case using inv_runD(1)[OF s, of q _ a' p] h by (auto split: if_splits)
    next
      case (2 a' p oc)
      then show ?case using inv_runD(2)[OF s, of a' p oc] by auto
    qed
  next
    fix oc assume h: "heap r (last_promise r) = Some (Settled oc)"
    have z: "last_promise r = 0 \<or> SettledP (last_promise r) oc \<in> set (events r)"
      using inv_settledD(2)[OF t h] by blast
    show ?thesis
      unfolding run_settled[OF h d(1)]
    proof (rule inv_runI, goal_cases)
      case (1 q rs' a' p)
      then show ?case using inv_runD(1)[OF s, of q _ a' p] by (auto split: if_splits)
    next
      case (2 a' p oc')
      then show ?case using inv_runD(2)[OF s, of a' p oc'] z by auto
    qed
  qed
qed

lemma inv_follow_run:
  assumes i: "inv_heap r" and s: "inv_follow r"
  shows "inv_follow (chain_action a r)"
proof -
  note d = inv_heapD[OF i]
  show ?thesis
  proof (rule run_cases[OF i])
    fix rs assume h: "heap r (last_promise r) = Some (Pending rs)"
    show ?thesis
      unfolding run_pending[OF h d(1)]
    proof (rule inv_followI, goal_cases)
      case (1 q rs' p)
      then show ?case using inv_followD(1)[OF s, of q _ p] h by (auto split: if_splits)
    next
      case (2 p oc)
      then show ?case using inv_followD(2)[OF s, of p oc] by auto
    next
      case (3 p q)
      then show ?case using inv_followD(3)[OF s, of p q] by auto
    qed
  next
    fix oc assume h: "heap r (last_promise r) = Some (Settled oc)"
    show ?thesis
      unfolding run_settled[OF h d(1)]
    proof (rule inv_followI, goal_cases)
      case (1 q rs' p)
      then show ?case using inv_followD(1)[OF s, of q _ p] by (auto split: if_splits)
    next
      case (2 p oc)
      then show ?case using inv_followD(2)[OF s, of p oc] by auto
    next
      case (3 p q)
      then show ?case using inv_followD(3)[OF s, of p q] by auto
    qed
  qed
qed

lemma consistent_run: "consistent r \<Longrightarrow> consistent (chain_action a r)"
  unfolding consistent_def
  using inv_heap_run inv_sub_run inv_settled_run inv_run_run inv_follow_run by blast

lemma inv_heap_cong:
  "heap r' = heap r \<Longrightarrow> fresh r' = fresh r \<Longrightarrow> last_promise r' = last_promise r
     \<Longrightarrow> own r' = own r \<Longrightarrow> inv_heap r' = inv_heap r"
  by (simp add: inv_heap_def)

lemma inv_sub_cong:
  "events r' = events r \<Longrightarrow> fresh r' = fresh r \<Longrightarrow> own r' = own r
     \<Longrightarrow> inv_sub r' = inv_sub r"
  by (simp add: inv_sub_def)

lemma inv_settled_cong:
  "events r' = events r \<Longrightarrow> heap r' = heap r \<Longrightarrow> inv_settled r' = inv_settled r"
  by (simp add: inv_settled_def)

subsection \<open>The invariants when a promise settles\<close>

lemma settle_cases:
  obtains (pending) rs where "heap r p = Some (Pending rs)"
  | (same) "settle p oc r = r"
proof (cases "heap r p")
  case None
  then show ?thesis using same by (simp add: settle_def)
next
  case (Some st)
  then show ?thesis using pending same by (cases st) (auto simp: settle_def)
qed

lemma inv_heap_settle:
  assumes i: "inv_heap r"
  shows "inv_heap (settle p oc r)"
proof (rule settle_cases[where r=r and p=p and oc=oc])
  fix rs assume h: "heap r p = Some (Pending rs)"
  note d = inv_heapD[OF i]
  have "p \<noteq> 0" using d(6) h by (cases "p = 0") auto
  then show ?thesis
    unfolding settle_pending[OF h] using d h
    by (intro inv_heapI) (auto split: if_splits)
next
  assume "settle p oc r = r"
  then show ?thesis using i by simp
qed

lemma inv_sub_settle:
  assumes s: "inv_sub r"
  shows "inv_sub (settle p oc r)"
proof (rule settle_cases[where r=r and p=p and oc=oc])
  fix rs assume h: "heap r p = Some (Pending rs)"
  show ?thesis
    unfolding settle_pending[OF h]
  proof (rule inv_subI, goal_cases)
    case (1 p q a')
    then show ?case using inv_subD(1)[OF s, of p q a'] by auto
  next
    case (2 p q a' q' a'')
    then show ?case using inv_subD(2)[OF s, of p q a' q' a''] by auto
  next
    case (3 p)
    then show ?case using inv_subD(3)[OF s, of p] by auto
  qed
next
  assume "settle p oc r = r"
  then show ?thesis using s by simp
qed

lemma inv_settled_settle:
  assumes s: "inv_settled r"
  shows "inv_settled (settle p oc r)"
proof (rule settle_cases[where r=r and p=p and oc=oc])
  fix rs assume h: "heap r p = Some (Pending rs)"
  show ?thesis
    unfolding settle_pending[OF h]
  proof (rule inv_settledI, goal_cases)
    case (1 p' oc')
    then show ?case using inv_settledD(1)[OF s, of p' oc'] h by auto
  next
    case (2 p' oc')
    then show ?case using inv_settledD(2)[OF s, of p' oc'] by (auto split: if_splits)
  qed
next
  assume "settle p oc r = r"
  then show ?thesis using s by simp
qed

lemma inv_run_settle:
  assumes s: "inv_run r"
  shows "inv_run (settle p oc r)"
proof (rule settle_cases[where r=r and p=p and oc=oc])
  fix rs assume h: "heap r p = Some (Pending rs)"
  show ?thesis
    unfolding settle_pending[OF h]
  proof (rule inv_runI, goal_cases)
    case (1 q rs' a' p')
    then show ?case using inv_runD(1)[OF s, of q _ a' p'] by (auto split: if_splits)
  next
    case (2 a' p' oc')
    then show ?case using inv_runD(2)[OF s, of a' p' oc'] inv_runD(1)[OF s h, of a' p'] by auto
  qed
next
  assume "settle p oc r = r"
  then show ?thesis using s by simp
qed

lemma inv_follow_settle:
  assumes s: "inv_follow r"
  shows "inv_follow (settle p oc r)"
proof (rule settle_cases[where r=r and p=p and oc=oc])
  fix rs assume h: "heap r p = Some (Pending rs)"
  show ?thesis
    unfolding settle_pending[OF h]
  proof (rule inv_followI, goal_cases)
    case (1 q rs' p')
    then show ?case using inv_followD(1)[OF s, of q _ p'] by (auto split: if_splits)
  next
    case (2 p' oc')
    then show ?case using inv_followD(2)[OF s, of p' oc'] inv_followD(1)[OF s h, of p'] by auto
  next
    case (3 p' q)
    then show ?case using inv_followD(3)[OF s, of p' q] by auto
  qed
next
  assume "settle p oc r = r"
  then show ?thesis using s by simp
qed

lemma consistent_settle: "consistent r \<Longrightarrow> consistent (settle p oc r)"
  unfolding consistent_def
  using inv_heap_settle inv_sub_settle inv_settled_settle inv_run_settle inv_follow_settle by blast

subsection \<open>Taking a job off the microtask queue\<close>

lemma consistent_pop:
  assumes c: "consistent r" and j: "jobs r = x # js"
  shows "consistent (r\<lparr>jobs := js\<rparr>)"
proof -
  from c have i: "inv_heap r" and s: "inv_sub r" and t: "inv_settled r" and u: "inv_run r"
    and f: "inv_follow r" by (simp_all add: consistent_def)
  have 1: "inv_heap (r\<lparr>jobs := js\<rparr>)" using i inv_heap_cong[of "r\<lparr>jobs := js\<rparr>" r] by simp
  have 2: "inv_sub (r\<lparr>jobs := js\<rparr>)" using s inv_sub_cong[of "r\<lparr>jobs := js\<rparr>" r] by simp
  have 3: "inv_settled (r\<lparr>jobs := js\<rparr>)"
    using t inv_settled_cong[of "r\<lparr>jobs := js\<rparr>" r] by simp
  have 4: "inv_run (r\<lparr>jobs := js\<rparr>)"
  proof (rule inv_runI, goal_cases)
    case (1 q rs a p)
    then show ?case using inv_runD(1)[OF u, of q rs a p] by simp
  next
    case (2 a p oc)
    then show ?case using inv_runD(2)[OF u, of a p oc] j by simp
  qed
  have 5: "inv_follow (r\<lparr>jobs := js\<rparr>)"
  proof (rule inv_followI, goal_cases)
    case (1 q rs p)
    then show ?case using inv_followD(1)[OF f, of q rs p] by simp
  next
    case (2 p oc)
    then show ?case using inv_followD(2)[OF f, of p oc] j by simp
  next
    case (3 p q)
    then show ?case using inv_followD(3)[OF f, of p q] by simp
  qed
  from 1 2 3 4 5 show ?thesis by (simp add: consistent_def)
qed

subsection \<open>Recording the start of an action\<close>

lemma consistent_started:
  assumes c: "consistent r" and p: "p < fresh r"
  shows "consistent (r\<lparr>events := events r @ [Started p]\<rparr>)"
proof -
  from c have i: "inv_heap r" and s: "inv_sub r" and t: "inv_settled r" and u: "inv_run r"
    and f: "inv_follow r" by (simp_all add: consistent_def)
  have 1: "inv_heap (r\<lparr>events := events r @ [Started p]\<rparr>)"
    using i inv_heap_cong[of "r\<lparr>events := events r @ [Started p]\<rparr>" r] by simp
  have 2: "inv_sub (r\<lparr>events := events r @ [Started p]\<rparr>)"
  proof (rule inv_subI, goal_cases)
    case (1 p q a')
    then show ?case using inv_subD(1)[OF s, of p q a'] by auto
  next
    case (2 p q a' q' a'')
    then show ?case using inv_subD(2)[OF s, of p q a' q' a''] by auto
  next
    case (3 p')
    then show ?case using inv_subD(3)[OF s, of p'] p by auto
  qed
  have 3: "inv_settled (r\<lparr>events := events r @ [Started p]\<rparr>)"
  proof (rule inv_settledI, goal_cases)
    case (1 p' oc)
    then show ?case using inv_settledD(1)[OF t, of p' oc] by auto
  next
    case (2 p' oc)
    then show ?case using inv_settledD(2)[OF t, of p' oc] by auto
  qed
  have 4: "inv_run (r\<lparr>events := events r @ [Started p]\<rparr>)"
  proof (rule inv_runI, goal_cases)
    case (1 q rs a p)
    then show ?case using inv_runD(1)[OF u, of q rs a p] by simp
  next
    case (2 a p oc)
    then show ?case using inv_runD(2)[OF u, of a p oc] by auto
  qed
  have 5: "inv_follow (r\<lparr>events := events r @ [Started p]\<rparr>)"
  proof (rule inv_followI, goal_cases)
    case (1 q rs p)
    then show ?case using inv_followD(1)[OF f, of q rs p] by simp
  next
    case (2 p oc)
    then show ?case using inv_followD(2)[OF f, of p oc] by auto
  next
    case (3 p q)
    then show ?case using inv_followD(3)[OF f, of p q] by auto
  qed
  from 1 2 3 4 5 show ?thesis by (simp add: consistent_def)
qed

subsection \<open>An action that returns a promise of its own\<close>

lemma call_action_ReturnsPromise:
  "call_action ReturnsPromise p r =
     r\<lparr>heap := (heap r)(fresh r \<mapsto> Pending [Follow p]),
       fresh := Suc (fresh r),
       own := insert (fresh r) (own r),
       events := events r @ [Started p, Awaiting p (fresh r)]\<rparr>"
  by (simp add: call_action_def new_promise_def subscribe_def Let_def)

lemma call_action_Throws:
  "call_action (Throws e) p r = settle p (Rejected e) (r\<lparr>events := events r @ [Started p]\<rparr>)"
  by (simp add: call_action_def Let_def)

lemma call_action_Returns:
  "call_action (Returns v) p r = settle p (Fulfilled v) (r\<lparr>events := events r @ [Started p]\<rparr>)"
  by (simp add: call_action_def Let_def)

lemma consistent_returns_promise:
  assumes c: "consistent r" and p: "p < fresh r" and sub: "Submitted p q0 ReturnsPromise \<in> set (events r)"
  shows "consistent (call_action ReturnsPromise p r)"
proof -
  from c have i: "inv_heap r" and s: "inv_sub r" and t: "inv_settled r" and u: "inv_run r"
    and f: "inv_follow r" by (simp_all add: consistent_def)
  note d = inv_heapD[OF i]
  let ?r = "r\<lparr>heap := (heap r)(fresh r \<mapsto> Pending [Follow p]),
       fresh := Suc (fresh r),
       own := insert (fresh r) (own r),
       events := events r @ [Started p, Awaiting p (fresh r)]\<rparr>"
  have 1: "inv_heap ?r"
    using d by (intro inv_heapI) (auto simp: less_Suc_eq)
  have 2: "inv_sub ?r"
  proof (rule inv_subI, goal_cases)
    case (1 p q a')
    then show ?case using inv_subD(1)[OF s, of p q a'] by (auto simp: less_Suc_eq)
  next
    case (2 p q a' q' a'')
    then show ?case using inv_subD(2)[OF s, of p q a' q' a''] by auto
  next
    case (3 p')
    then show ?case using inv_subD(3)[OF s, of p'] p by (auto simp: less_Suc_eq)
  qed
  have 3: "inv_settled ?r"
  proof (rule inv_settledI, goal_cases)
    case (1 p' oc)
    then show ?case using inv_settledD(1)[OF t, of p' oc] d(2) by auto
  next
    case (2 p' oc)
    then show ?case using inv_settledD(2)[OF t, of p' oc] by (auto split: if_splits)
  qed
  have 4: "inv_run ?r"
  proof (rule inv_runI, goal_cases)
    case (1 q rs a p')
    then show ?case using inv_runD(1)[OF u, of q rs a p'] by (auto split: if_splits)
  next
    case (2 a p' oc)
    then show ?case using inv_runD(2)[OF u, of a p' oc] by auto
  qed
  have 5: "inv_follow ?r"
  proof (rule inv_followI, goal_cases)
    case (1 q rs p')
    then show ?case using inv_followD(1)[OF f, of q rs p'] by (auto split: if_splits)
  next
    case (2 p' oc)
    then show ?case using inv_followD(2)[OF f, of p' oc] by auto
  next
    case (3 p' q)
    then show ?case using inv_followD(3)[OF f, of p' q] sub by auto
  qed
  from 1 2 3 4 5 show ?thesis by (simp add: consistent_def call_action_ReturnsPromise)
qed

lemma consistent_call_action:
  assumes c: "consistent r" and sub: "Submitted p q0 a \<in> set (events r)"
  shows "consistent (call_action a p r)"
proof -
  from c have s: "inv_sub r" by (simp add: consistent_def)
  from inv_subD(1)[OF s sub] have p: "p < fresh r" by simp
  show ?thesis
  proof (cases a)
    case (Throws e)
    then show ?thesis
      using consistent_settle[OF consistent_started[OF c p]] by (simp add: call_action_Throws)
  next
    case (Returns v)
    then show ?thesis
      using consistent_settle[OF consistent_started[OF c p]] by (simp add: call_action_Returns)
  next
    case ReturnsPromise
    then show ?thesis using consistent_returns_promise[OF c p] sub by simp
  qed
qed

lemma consistent_step:
  assumes c: "consistent r"
  shows "consistent (step r i)"
proof (cases i)
  case (Run action)
  then show ?thesis using c consistent_run[OF c] by (cases action) (simp_all add: run_def)
next
  case Tick
  show ?thesis
  proof (cases "jobs r")
    case Nil
    then show ?thesis using c Tick by simp
  next
    case (Cons j js)
    obtain x oc where j: "j = (x, oc)" by (cases j)
    note c' = consistent_pop[OF c Cons]
    show ?thesis
    proof (cases x)
      case (RunAction a p)
      from c have "inv_run r" by (simp add: consistent_def)
      from inv_runD(2)[OF this, of a p oc] Cons j RunAction
      obtain q where "Submitted p q a \<in> set (events r)" by auto
      then have "Submitted p q a \<in> set (events (r\<lparr>jobs := js\<rparr>))" by simp
      from consistent_call_action[OF c' this] show ?thesis
        using Tick Cons j RunAction by (simp add: react_def)
    next
      case (Follow p)
      then show ?thesis using consistent_settle[OF c'] Tick Cons j by (simp add: react_def)
    qed
  qed
next
  case (Resolve q oc)
  then show ?thesis using c consistent_settle[OF c] by simp
qed

lemma consistent_execute: "consistent (foldl step (taskQueue u) ins)"
  by (induction ins rule: rev_induct) (simp_all add: consistent_init consistent_step)

lemma guarded_snoc:
  "guarded P Q (xs @ [y]) \<longleftrightarrow> guarded P Q xs \<and> (Q y \<longrightarrow> (\<exists>x \<in> set xs. P x))"
  by (induction xs) auto

lemma guarded_none: "(\<And>x. x \<in> set xs \<Longrightarrow> \<not> Q x) \<Longrightarrow> guarded P Q xs"
  by (induction xs) auto

lemma guarded_nth:
  "guarded P Q xs \<longleftrightarrow> (\<forall>i < length xs. Q (xs ! i) \<longrightarrow> (\<exists>j < i. P (xs ! j)))"
proof (induction xs rule: rev_induct)
  case Nil
  then show ?case by simp
next
  case (snoc y xs)
  show ?case
  proof
    assume g: "guarded P Q (xs @ [y])"
    then have gx: "guarded P Q xs" and gy: "Q y \<longrightarrow> (\<exists>x \<in> set xs. P x)"
      by (simp_all add: guarded_snoc)
    show "\<forall>i < length (xs @ [y]). Q ((xs @ [y]) ! i) \<longrightarrow> (\<exists>j < i. P ((xs @ [y]) ! j))"
    proof (intro allI impI)
      fix i assume i: "i < length (xs @ [y])" and q: "Q ((xs @ [y]) ! i)"
      show "\<exists>j < i. P ((xs @ [y]) ! j)"
      proof (cases "i < length xs")
        case True
        with q have "Q (xs ! i)" by (simp add: nth_append)
        with snoc.IH gx True obtain j where "j < i" "P (xs ! j)" by blast
        with True show ?thesis by (auto simp: nth_append intro!: exI[where x=j])
      next
        case False
        with i have e: "i = length xs" by simp
        with q have "Q y" by simp
        with gy obtain x where "x \<in> set xs" "P x" by blast
        then obtain j where "j < length xs" "xs ! j = x" by (auto simp: in_set_conv_nth)
        with e \<open>P x\<close> show ?thesis by (auto simp: nth_append intro!: exI[where x=j])
      qed
    qed
  next
    assume a: "\<forall>i < length (xs @ [y]). Q ((xs @ [y]) ! i) \<longrightarrow> (\<exists>j < i. P ((xs @ [y]) ! j))"
    have "\<forall>i < length xs. Q (xs ! i) \<longrightarrow> (\<exists>j < i. P (xs ! j))"
    proof (intro allI impI)
      fix i assume i: "i < length xs" and q: "Q (xs ! i)"
      with a[rule_format, of i] obtain j where "j < i" "P ((xs @ [y]) ! j)"
        by (auto simp: nth_append)
      with i show "\<exists>j < i. P (xs ! j)" by (auto simp: nth_append intro!: exI[where x=j])
    qed
    with snoc.IH have gx: "guarded P Q xs" by simp
    have "Q y \<longrightarrow> (\<exists>x \<in> set xs. P x)"
    proof
      assume "Q y"
      with a[rule_format, of "length xs"] obtain j where "j < length xs" "P ((xs @ [y]) ! j)"
        by auto
      then show "\<exists>x \<in> set xs. P x" by (auto simp: nth_append)
    qed
    with gx show "guarded P Q (xs @ [y])" by (simp add: guarded_snoc)
  qed
qed


lemma is_started_iff: "is_started p e \<longleftrightarrow> e = Started p"
  by (cases e) (auto simp: is_started_def)

lemma is_settled_iff: "is_settled p e \<longleftrightarrow> (\<exists>oc. e = SettledP p oc)"
  by (cases e) (auto simp: is_settled_def)

lemma ordered_snoc:
  assumes o: "ordered r" and ev: "events r' = events r @ [e]" and ow: "own r \<subseteq> own r'"
    and c1: "\<And>p q a. e = Submitted p q a \<Longrightarrow> Started p \<notin> set (events r)"
    and c2: "\<And>p q a. e = Started p \<Longrightarrow> Submitted p q a \<in> set (events r) \<Longrightarrow> q \<noteq> 0
               \<Longrightarrow> \<exists>oc. SettledP q oc \<in> set (events r)"
    and c3: "\<And>p oc. e = SettledP p oc \<Longrightarrow> p \<in> own r' \<or> Started p \<in> set (events r)"
  shows "ordered r'"
  unfolding ordered_def
proof (intro conjI allI impI)
  fix p q a
  assume a: "Submitted p q a \<in> set (events r') \<and> q \<noteq> 0"
  show "guarded (is_settled q) (is_started p) (events r')"
  proof (cases "Submitted p q a \<in> set (events r)")
    case True
    with o a have g: "guarded (is_settled q) (is_started p) (events r)"
      unfolding ordered_def by blast
    have "is_started p e \<longrightarrow> (\<exists>x \<in> set (events r). is_settled q x)"
    proof
      assume "is_started p e"
      then have "e = Started p" by (simp add: is_started_iff)
      from c2[OF this True] a obtain oc where "SettledP q oc \<in> set (events r)" by blast
      then show "\<exists>x \<in> set (events r). is_settled q x"
        by (auto simp: is_settled_iff)
    qed
    with g show ?thesis by (simp add: ev guarded_snoc)
  next
    case False
    with a ev have e: "e = Submitted p q a" by auto
    have "guarded (is_settled q) (is_started p) (events r)"
      by (rule guarded_none) (use c1[OF e] in \<open>auto simp: is_started_iff\<close>)
    then show ?thesis by (simp add: ev guarded_snoc e is_started_iff)
  qed
next
  fix p assume "p \<notin> own r'"
  with ow have n: "p \<notin> own r" by blast
  with o have g: "guarded (is_started p) (is_settled p) (events r)"
    unfolding ordered_def by blast
  have "is_settled p e \<longrightarrow> (\<exists>x \<in> set (events r). is_started p x)"
  proof
    assume "is_settled p e"
    then obtain oc where "e = SettledP p oc" by (auto simp: is_settled_iff)
    from c3[OF this] \<open>p \<notin> own r'\<close> have "Started p \<in> set (events r)" by blast
    then show "\<exists>x \<in> set (events r). is_started p x" by (auto simp: is_started_iff)
  qed
  with g show "guarded (is_started p) (is_settled p) (events r')"
    by (simp add: ev guarded_snoc)
qed

lemma ordered_same:
  "ordered r \<Longrightarrow> events r' = events r \<Longrightarrow> own r \<subseteq> own r' \<Longrightarrow> ordered r'"
  unfolding ordered_def by (simp add: subset_iff) blast

lemma ordered_settle:
  assumes o: "ordered r" and s: "p \<in> own r \<or> Started p \<in> set (events r)"
  shows "ordered (settle p oc r)"
proof (rule settle_cases[where r=r and p=p and oc=oc])
  fix rs assume h: "heap r p = Some (Pending rs)"
  show ?thesis
    by (rule ordered_snoc[OF o, where e="SettledP p oc"]) (use s in \<open>auto simp: settle_pending[OF h]\<close>)
next
  assume "settle p oc r = r"
  then show ?thesis using o by simp
qed

lemma ordered_started:
  assumes o: "ordered r"
    and c: "\<And>q a. Submitted p q a \<in> set (events r) \<Longrightarrow> q \<noteq> 0 \<Longrightarrow> \<exists>oc. SettledP q oc \<in> set (events r)"
  shows "ordered (r\<lparr>events := events r @ [Started p]\<rparr>)"
  by (rule ordered_snoc[OF o, where e="Started p"]) (use c in auto)

lemma ordered_call_action:
  assumes o: "ordered r"
    and c: "\<And>q a. Submitted p q a \<in> set (events r) \<Longrightarrow> q \<noteq> 0 \<Longrightarrow> \<exists>oc. SettledP q oc \<in> set (events r)"
  shows "ordered (call_action a p r)"
proof -
  note o1 = ordered_started[OF o c]
  have s: "p \<in> own (r\<lparr>events := events r @ [Started p]\<rparr>)
      \<or> Started p \<in> set (events (r\<lparr>events := events r @ [Started p]\<rparr>))" by simp
  show ?thesis
  proof (cases a)
    case (Throws e)
    then show ?thesis using ordered_settle[OF o1 s] by (simp add: call_action_Throws)
  next
    case (Returns v)
    then show ?thesis using ordered_settle[OF o1 s] by (simp add: call_action_Returns)
  next
    case ReturnsPromise
    have "ordered (call_action ReturnsPromise p r)"
      by (rule ordered_snoc[OF o1, where e="Awaiting p (fresh r)"])
        (auto simp: call_action_ReturnsPromise)
    with ReturnsPromise show ?thesis by simp
  qed
qed

lemma job_predecessor_settled:
  assumes c: "consistent r" and j: "(RunAction a p, oc) \<in> set (jobs r)"
    and s: "Submitted p q a' \<in> set (events r)" and q: "q \<noteq> 0"
  shows "a' = a \<and> SettledP q oc \<in> set (events r)"
proof -
  from c have u: "inv_run r" and b: "inv_sub r" by (simp_all add: consistent_def)
  from inv_runD(2)[OF u j] obtain q' where
    1: "Submitted p q' a \<in> set (events r)" and 2: "q' = 0 \<or> SettledP q' oc \<in> set (events r)"
    by blast
  from inv_subD(2)[OF b s 1] have "q = q'" "a' = a" by simp_all
  with 2 q show ?thesis by simp
qed

lemma ordered_step:
  assumes c: "consistent r" and o: "ordered r"
  shows "ordered (step r i)"
proof (cases i)
  case (Run action)
  from c have b: "inv_sub r" by (simp add: consistent_def)
  have "ordered (chain_action a r)" for a
    by (rule ordered_snoc[OF o, where e="Submitted (fresh r) (last_promise r) a"])
      (use inv_subD(3)[OF b, of "fresh r"] in \<open>auto simp: run_events run_own\<close>)
  with Run o show ?thesis by (cases action) (simp_all add: run_def)
next
  case Tick
  show ?thesis
  proof (cases "jobs r")
    case Nil
    then show ?thesis using o Tick by simp
  next
    case (Cons j js)
    obtain x oc where j: "j = (x, oc)" by (cases j)
    have o': "ordered (r\<lparr>jobs := js\<rparr>)" by (rule ordered_same[OF o]) simp_all
    show ?thesis
    proof (cases x)
      case (RunAction a p)
      have m: "(RunAction a p, oc) \<in> set (jobs r)" using Cons j RunAction by simp
      have "ordered (call_action a p (r\<lparr>jobs := js\<rparr>))"
        by (rule ordered_call_action[OF o']) (use job_predecessor_settled[OF c m] in auto)
      then show ?thesis using Tick Cons j RunAction by (simp add: react_def)
    next
      case (Follow p)
      from c have f: "inv_follow r" by (simp add: consistent_def)
      have m: "(Follow p, oc) \<in> set (jobs r)" using Cons j Follow by simp
      from inv_followD(2)[OF f m] inv_followD(3)[OF f] have "Started p \<in> set (events r)" by blast
      then have "ordered (settle p oc (r\<lparr>jobs := js\<rparr>))"
        by (intro ordered_settle[OF o']) simp
      then show ?thesis using Tick Cons j Follow by (simp add: react_def)
    qed
  qed
next
  case (Resolve q oc)
  then show ?thesis using o ordered_settle[OF o, of q oc] by simp
qed

lemma ordered_init: "ordered (taskQueue u)"
  by (simp add: ordered_def taskQueue_def)

lemma ordered_execute: "ordered (foldl step (taskQueue u) ins)"
proof (induction ins rule: rev_induct)
  case Nil
  then show ?case by (simp add: ordered_init)
next
  case (snoc i ins)
  then show ?case using ordered_step[OF consistent_execute[of u ins]] by simp
qed

subsection \<open>The chain of submissions\<close>

lemma submitted_append: "submitted (xs @ ys) = submitted xs @ submitted ys"
  by (induction xs) (auto split: qevent.splits)

lemma chained_same:
  assumes "chained r" and "submitted (events r') = submitted (events r)"
    and "set (events r) \<subseteq> set (events r')" and "last_promise r' = last_promise r"
  shows "chained r'"
  using assms unfolding chained_def by (auto simp: subset_iff) blast

lemma chained_run:
  assumes c: "chained r"
  shows "chained (chain_action a r)"
proof -
  let ?s = "submitted (events r)"
  have s: "submitted (events (chain_action a r)) = ?s @ [fresh r]"
    by (simp add: run_events submitted_append)
  have l: "last_promise (chain_action a r) = fresh r"
    by (simp add: chain_action_def new_promise_def)
  from c have lp: "last_promise r = last (0 # ?s)" by (simp add: chained_def)
  show ?thesis
    unfolding chained_def s
  proof (intro conjI allI impI)
    show "last_promise (chain_action a r) = last (0 # ?s @ [fresh r])" by (simp add: l)
  next
    fix i assume i: "i < length (?s @ [fresh r])"
    show "\<exists>a'. Submitted ((?s @ [fresh r]) ! i) ((0 # ?s @ [fresh r]) ! i) a' \<in> set (events (chain_action a r))"
    proof (cases "i < length ?s")
      case True
      with c obtain a' where "Submitted (?s ! i) ((0 # ?s) ! i) a' \<in> set (events r)"
        unfolding chained_def by blast
      moreover have "(0 # ?s @ [fresh r]) ! i = (0 # ?s) ! i"
        using True by (metis append_Cons length_Cons less_SucI nth_append)
      ultimately show ?thesis using True by (auto simp: nth_append run_events)
    next
      case False
      with i have e: "i = length ?s" by simp
      have "(0 # ?s @ [fresh r]) ! i = last (0 # ?s)"
        unfolding e by (metis append_Cons diff_Suc_1 last_conv_nth length_Cons list.distinct(1) lessI nth_append)
      then show ?thesis using e lp by (auto simp: run_events)
    qed
  qed
qed

lemma settle_events_sub: "set (events r) \<subseteq> set (events (settle p oc r))"
  by (rule settle_cases[where r=r and p=p and oc=oc]) (auto simp: settle_pending)

lemma settle_submitted: "submitted (events (settle p oc r)) = submitted (events r)"
  by (rule settle_cases[where r=r and p=p and oc=oc]) (auto simp: settle_pending submitted_append)

lemma settle_last: "last_promise (settle p oc r) = last_promise r"
  by (rule settle_cases[where r=r and p=p and oc=oc]) (auto simp: settle_pending)

lemma call_action_events_sub: "set (events r) \<subseteq> set (events (call_action a p r))"
proof (cases a)
  case (Throws e)
  then show ?thesis
    using settle_events_sub[of "r\<lparr>events := events r @ [Started p]\<rparr>" p "Rejected e"]
    by (auto simp: call_action_Throws)
next
  case (Returns v)
  then show ?thesis
    using settle_events_sub[of "r\<lparr>events := events r @ [Started p]\<rparr>" p "Fulfilled v"]
    by (auto simp: call_action_Returns)
next
  case ReturnsPromise
  then show ?thesis by (auto simp: call_action_ReturnsPromise)
qed

lemma call_action_submitted: "submitted (events (call_action a p r)) = submitted (events r)"
  by (cases a)
    (simp_all add: call_action_Throws call_action_Returns call_action_ReturnsPromise
      settle_submitted submitted_append)

lemma call_action_last: "last_promise (call_action a p r) = last_promise r"
  by (cases a)
    (simp_all add: call_action_Throws call_action_Returns call_action_ReturnsPromise settle_last)

lemma step_events_sub: "set (events r) \<subseteq> set (events (step r i))"
proof (cases i)
  case (Run action)
  then show ?thesis by (cases action) (auto simp: run_def run_events)
next
  case Tick
  show ?thesis
  proof (cases "jobs r")
    case Nil
    then show ?thesis using Tick by simp
  next
    case (Cons j js)
    obtain x oc where j: "j = (x, oc)" by (cases j)
    show ?thesis
      using Tick Cons j call_action_events_sub[of "r\<lparr>jobs := js\<rparr>"]
        settle_events_sub[of "r\<lparr>jobs := js\<rparr>"]
      by (cases x) (auto simp: react_def)
  qed
next
  case (Resolve q oc)
  then show ?thesis using settle_events_sub[of r q oc] by auto
qed

lemma chained_step:
  assumes c: "chained r"
  shows "chained (step r i)"
proof (cases i)
  case (Run action)
  then show ?thesis using c chained_run[OF c] by (cases action) (simp_all add: run_def)
next
  case Tick
  show ?thesis
  proof (cases "jobs r")
    case Nil
    then show ?thesis using c Tick by simp
  next
    case (Cons j js)
    obtain x oc where j: "j = (x, oc)" by (cases j)
    show ?thesis
    proof (rule chained_same[OF c])
      show "submitted (events (step r i)) = submitted (events r)"
        using Tick Cons j by (cases x) (simp_all add: react_def call_action_submitted settle_submitted)
      show "set (events r) \<subseteq> set (events (step r i))" by (rule step_events_sub)
      show "last_promise (step r i) = last_promise r"
        using Tick Cons j by (cases x) (simp_all add: react_def call_action_last settle_last)
    qed
  qed
next
  case (Resolve q oc)
  show ?thesis
    by (rule chained_same[OF c]) (use Resolve in \<open>simp_all add: settle_submitted settle_last settle_events_sub\<close>)
qed

lemma chained_execute: "chained (foldl step (taskQueue u) ins)"
proof (induction ins rule: rev_induct)
  case Nil
  then show ?case by (simp add: chained_def taskQueue_def)
next
  case (snoc i ins)
  then show ?case using chained_step by simp
qed

subsection \<open>The outcome of a slot is its own action's\<close>

lemma own_outcome_mono:
  "own_outcome evs p a oc \<Longrightarrow> set evs \<subseteq> set evs' \<Longrightarrow> own_outcome evs' p a oc"
  by (cases a) (auto simp: own_outcome_def)

lemma fated_snoc:
  assumes f: "fated r" and ev: "events r' = events r @ [e]"
    and c1: "\<And>p q a oc. e = Submitted p q a \<Longrightarrow> SettledP p oc \<notin> set (events r)"
    and c2: "\<And>p oc q a. e = SettledP p oc \<Longrightarrow> Submitted p q a \<in> set (events r)
               \<Longrightarrow> own_outcome (events r @ [e]) p a oc"
  shows "fated r'"
  unfolding fated_def
proof (intro allI impI)
  fix p q a oc
  assume a: "Submitted p q a \<in> set (events r') \<and> SettledP p oc \<in> set (events r')"
  show "own_outcome (events r') p a oc"
  proof (cases "Submitted p q a \<in> set (events r)")
    case True
    show ?thesis
    proof (cases "SettledP p oc \<in> set (events r)")
      case True
      with f \<open>Submitted p q a \<in> set (events r)\<close> have "own_outcome (events r) p a oc"
        unfolding fated_def by blast
      then show ?thesis by (rule own_outcome_mono) (simp add: ev subset_iff)
    next
      case False
      with a ev have "e = SettledP p oc" by auto
      from c2[OF this True] show ?thesis by (simp add: ev)
    qed
  next
    case False
    with a ev have e: "e = Submitted p q a" by auto
    with a ev have "SettledP p oc \<in> set (events r)" by auto
    with c1[OF e] show ?thesis by blast
  qed
qed

lemma fated_settle:
  assumes f: "fated r"
    and c: "\<And>q a. Submitted p q a \<in> set (events r)
              \<Longrightarrow> own_outcome (events r @ [SettledP p oc]) p a oc"
  shows "fated (settle p oc r)"
proof (rule settle_cases[where r=r and p=p and oc=oc])
  fix rs assume h: "heap r p = Some (Pending rs)"
  show ?thesis
    by (rule fated_snoc[OF f, where e="SettledP p oc"]) (use c in \<open>auto simp: settle_pending[OF h]\<close>)
next
  assume "settle p oc r = r"
  then show ?thesis using f by simp
qed

lemma fated_other:
  assumes f: "fated r" and ev: "events r' = events r @ [e]"
    and "\<And>p q a. e \<noteq> Submitted p q a" and "\<And>p oc. e \<noteq> SettledP p oc"
  shows "fated r'"
  by (rule fated_snoc[OF f ev]) (use assms(3,4) in auto)

lemma fated_same: "fated r \<Longrightarrow> events r' = events r \<Longrightarrow> fated r'"
  by (simp add: fated_def)

lemma fated_call_action:
  assumes f: "fated r" and u: "\<And>q a'. Submitted p q a' \<in> set (events r) \<Longrightarrow> a' = a"
  shows "fated (call_action a p r)"
proof -
  let ?r1 = "r\<lparr>events := events r @ [Started p]\<rparr>"
  have f1: "fated ?r1" by (rule fated_other[OF f, where e="Started p"]) auto
  show ?thesis
  proof (cases a)
    case (Throws e)
    have "fated (settle p (Rejected e) ?r1)"
    proof (rule fated_settle[OF f1])
      fix q a' assume "Submitted p q a' \<in> set (events ?r1)"
      then have "a' = a" using u[of q a'] by simp
      then show "own_outcome (events ?r1 @ [SettledP p (Rejected e)]) p a' (Rejected e)"
        using Throws by (simp add: own_outcome_def)
    qed
    with Throws show ?thesis by (simp add: call_action_Throws)
  next
    case (Returns v)
    have "fated (settle p (Fulfilled v) ?r1)"
    proof (rule fated_settle[OF f1])
      fix q a' assume "Submitted p q a' \<in> set (events ?r1)"
      then have "a' = a" using u[of q a'] by simp
      then show "own_outcome (events ?r1 @ [SettledP p (Fulfilled v)]) p a' (Fulfilled v)"
        using Returns by (simp add: own_outcome_def)
    qed
    with Returns show ?thesis by (simp add: call_action_Returns)
  next
    case ReturnsPromise
    have "fated (call_action ReturnsPromise p r)"
      by (rule fated_other[OF f1, where e="Awaiting p (fresh r)"])
        (auto simp: call_action_ReturnsPromise)
    with ReturnsPromise show ?thesis by simp
  qed
qed

lemma fated_step:
  assumes c: "consistent r" and f: "fated r"
  shows "fated (step r i)"
proof -
  from c have b: "inv_sub r" and t: "inv_settled r" and u: "inv_run r" and w: "inv_follow r"
    and h: "inv_heap r" by (simp_all add: consistent_def)
  show ?thesis
  proof (cases i)
    case (Run action)
    have n: "SettledP (fresh r) oc \<notin> set (events r)" for oc
      using inv_settledD(1)[OF t, of "fresh r" oc] inv_heapD(2)[OF h] by auto
    have "fated (chain_action a r)" for a
      by (rule fated_snoc[OF f, where e="Submitted (fresh r) (last_promise r) a"])
        (use n in \<open>auto simp: run_events\<close>)
    with Run f show ?thesis by (cases action) (simp_all add: run_def)
  next
    case Tick
    show ?thesis
    proof (cases "jobs r")
      case Nil
      then show ?thesis using f Tick by simp
    next
      case (Cons j js)
      obtain x oc where j: "j = (x, oc)" by (cases j)
      have f': "fated (r\<lparr>jobs := js\<rparr>)" by (rule fated_same[OF f]) simp
      show ?thesis
      proof (cases x)
        case (RunAction a p)
        have m: "(RunAction a p, oc) \<in> set (jobs r)" using Cons j RunAction by simp
        from inv_runD(2)[OF u m] obtain q where s: "Submitted p q a \<in> set (events r)" by blast
        have "fated (call_action a p (r\<lparr>jobs := js\<rparr>))"
          by (rule fated_call_action[OF f']) (use inv_subD(2)[OF b _ s] in auto)
        then show ?thesis using Tick Cons j RunAction by (simp add: react_def)
      next
        case (Follow p)
        have m: "(Follow p, oc) \<in> set (jobs r)" using Cons j Follow by simp
        from inv_followD(2)[OF w m] obtain q where
          a: "Awaiting p q \<in> set (events r)" and s: "SettledP q oc \<in> set (events r)" by blast
        from inv_followD(3)[OF w a] obtain q0 where
          s0: "Submitted p q0 ReturnsPromise \<in> set (events r)" by blast
        have "fated (settle p oc (r\<lparr>jobs := js\<rparr>))"
        proof (rule fated_settle[OF f'])
          fix q' a' assume "Submitted p q' a' \<in> set (events (r\<lparr>jobs := js\<rparr>))"
          then have "a' = ReturnsPromise" using inv_subD(2)[OF b _ s0, of q' a'] by simp
          then show "own_outcome (events (r\<lparr>jobs := js\<rparr>) @ [SettledP p oc]) p a' oc"
            using a s by (auto simp: own_outcome_def)
        qed
        then show ?thesis using Tick Cons j Follow by (simp add: react_def)
      qed
    qed
  next
    case (Resolve q oc)
    show ?thesis
    proof (cases "q \<in> own r")
      case True
      have "fated (settle q oc r)"
        by (rule fated_settle[OF f]) (use inv_subD(1)[OF b, of q] True in auto)
      with Resolve True show ?thesis by simp
    next
      case False
      with Resolve f show ?thesis by simp
    qed
  qed
qed

lemma fated_execute: "fated (foldl step (taskQueue u) ins)"
proof (induction ins rule: rev_induct)
  case Nil
  then show ?case by (simp add: fated_def taskQueue_def)
next
  case (snoc i ins)
  then show ?case using fated_step[OF consistent_execute[of u ins]] by simp
qed

lemma pending_startD:
  assumes "pending_start r" and "Submitted p q a \<in> set (events r)"
  shows "Started p \<in> set (events r)
        \<or> (\<exists>rs. heap r q = Some (Pending rs) \<and> RunAction a p \<in> set rs)
        \<or> (\<exists>oc. (RunAction a p, oc) \<in> set (jobs r))"
  using assms unfolding pending_start_def by blast

lemma pending_startI:
  assumes "\<And>p q a. Submitted p q a \<in> set (events r) \<Longrightarrow>
        Started p \<in> set (events r)
        \<or> (\<exists>rs. heap r q = Some (Pending rs) \<and> RunAction a p \<in> set rs)
        \<or> (\<exists>oc. (RunAction a p, oc) \<in> set (jobs r))"
  shows "pending_start r"
  using assms unfolding pending_start_def by blast

lemma pending_followD:
  assumes "pending_follow r" and "Awaiting p q \<in> set (events r)"
  shows "(\<exists>oc. heap r p = Some (Settled oc))
        \<or> (\<exists>rs. heap r q = Some (Pending rs) \<and> Follow p \<in> set rs)
        \<or> (\<exists>oc. (Follow p, oc) \<in> set (jobs r))"
  using assms unfolding pending_follow_def by blast

lemma pending_followI:
  assumes "\<And>p q. Awaiting p q \<in> set (events r) \<Longrightarrow>
        (\<exists>oc. heap r p = Some (Settled oc))
        \<or> (\<exists>rs. heap r q = Some (Pending rs) \<and> Follow p \<in> set rs)
        \<or> (\<exists>oc. (Follow p, oc) \<in> set (jobs r))"
  shows "pending_follow r"
  using assms unfolding pending_follow_def by blast

lemma pending_start_settle:
  assumes s: "pending_start r"
  shows "pending_start (settle p oc r)"
proof (rule settle_cases[where r=r and p=p and oc=oc])
  fix rs assume h: "heap r p = Some (Pending rs)"
  show ?thesis
    unfolding settle_pending[OF h]
  proof (rule pending_startI, goal_cases)
    case (1 p' q a)
    then have "Submitted p' q a \<in> set (events r)" by simp
    from pending_startD[OF s this] show ?case using h by (cases "q = p") auto
  qed
next
  assume "settle p oc r = r"
  then show ?thesis using s by simp
qed

lemma pending_follow_settle:
  assumes s: "pending_follow r"
  shows "pending_follow (settle p oc r)"
proof (rule settle_cases[where r=r and p=p and oc=oc])
  fix rs assume h: "heap r p = Some (Pending rs)"
  show ?thesis
    unfolding settle_pending[OF h]
  proof (rule pending_followI, goal_cases)
    case (1 p' q)
    then have "Awaiting p' q \<in> set (events r)" by simp
    from pending_followD[OF s this] show ?case using h
      by (cases "q = p"; cases "p' = p") auto
  qed
next
  assume "settle p oc r = r"
  then show ?thesis using s by simp
qed

lemma pending_start_pop_started:
  assumes s: "pending_start r" and j: "jobs r = (RunAction a p, oc) # js"
  shows "pending_start (r\<lparr>jobs := js, events := events r @ [Started p]\<rparr>)"
proof (rule pending_startI, goal_cases)
  case (1 p' q a')
  then have "Submitted p' q a' \<in> set (events r)" by simp
  from pending_startD[OF s this] show ?case using j by auto
qed

lemma pending_follow_pop_started:
  assumes s: "pending_follow r" and j: "jobs r = (RunAction a p, oc) # js"
  shows "pending_follow (r\<lparr>jobs := js, events := events r @ [Started p]\<rparr>)"
proof (rule pending_followI, goal_cases)
  case (1 p' q)
  then have "Awaiting p' q \<in> set (events r)" by simp
  from pending_followD[OF s this] show ?case using j by auto
qed

lemma pending_start_pop_follow:
  assumes s: "pending_start r" and j: "jobs r = (Follow p, oc) # js"
  shows "pending_start (r\<lparr>jobs := js\<rparr>)"
proof (rule pending_startI, goal_cases)
  case (1 p' q a')
  then have "Submitted p' q a' \<in> set (events r)" by simp
  from pending_startD[OF s this] show ?case using j by auto
qed

lemma settle_settles:
  assumes "heap r p \<noteq> None"
  shows "\<exists>oc'. heap (settle p oc r) p = Some (Settled oc')"
proof (rule settle_cases[where r=r and p=p and oc=oc])
  fix rs assume h: "heap r p = Some (Pending rs)"
  show ?thesis by (simp add: settle_pending[OF h])
next
  assume e: "settle p oc r = r"
  from assms obtain st where st: "heap r p = Some st" by auto
  show ?thesis
  proof (cases st)
    case (Pending rs)
    with st show ?thesis by (simp add: settle_pending)
  next
    case (Settled oc')
    with st e show ?thesis by simp
  qed
qed

lemma settle_keeps_settled:
  "heap r q = Some (Settled oc') \<Longrightarrow> heap (settle p oc r) q = Some (Settled oc')"
  by (rule settle_cases[where r=r and p=p and oc=oc]) (auto simp: settle_pending)

lemma settle_keeps_pending:
  "heap r q = Some (Pending rs) \<Longrightarrow> x \<in> set rs \<Longrightarrow>
     (\<exists>rs'. heap (settle p oc r) q = Some (Pending rs') \<and> x \<in> set rs')
     \<or> (x, oc) \<in> set (jobs (settle p oc r))"
  by (rule settle_cases[where r=r and p=p and oc=oc]) (auto simp: settle_pending)

lemma settle_keeps_jobs: "set (jobs r) \<subseteq> set (jobs (settle p oc r))"
  by (rule settle_cases[where r=r and p=p and oc=oc]) (auto simp: settle_pending)

lemma settle_events: "set (events (settle p oc r)) \<subseteq> insert (SettledP p oc) (set (events r))"
  by (rule settle_cases[where r=r and p=p and oc=oc]) (auto simp: settle_pending)

lemma pending_follow_pop_follow:
  assumes s: "pending_follow r" and j: "jobs r = (Follow p, oc) # js" and h: "heap r p \<noteq> None"
  shows "pending_follow (settle p oc (r\<lparr>jobs := js\<rparr>))"
proof (rule pending_followI, goal_cases)
  case (1 p' q)
  let ?r = "r\<lparr>jobs := js\<rparr>"
  from 1 settle_events[of p oc ?r] have a: "Awaiting p' q \<in> set (events r)" by auto
  from pending_followD[OF s a] consider
    (was_settled) oc' where "heap r p' = Some (Settled oc')"
    | (pend) rs where "heap r q = Some (Pending rs)" "Follow p' \<in> set rs"
    | (job) oc' where "(Follow p', oc') \<in> set (jobs r)" by blast
  then show ?case
  proof cases
    case was_settled
    then show ?thesis using settle_keeps_settled[of ?r p' oc' p oc] by simp
  next
    case pend
    then show ?thesis using settle_keeps_pending[of ?r q rs "Follow p'" p oc] by auto
  next
    case job
    show ?thesis
    proof (cases "p' = p")
      case True
      then show ?thesis using settle_settles[of ?r p oc] h by simp
    next
      case False
      with job j have "(Follow p', oc') \<in> set (jobs ?r)" by auto
      then show ?thesis using settle_keeps_jobs[of ?r p oc] by blast
    qed
  qed
qed

lemma pending_start_awaiting:
  assumes s: "pending_start r" and n: "heap r (fresh r) = None"
  shows "pending_start (r\<lparr>heap := (heap r)(fresh r \<mapsto> Pending [Follow p]),
       fresh := Suc (fresh r), own := insert (fresh r) (own r),
       events := events r @ [Awaiting p (fresh r)]\<rparr>)"
proof (rule pending_startI, goal_cases)
  case (1 p' q a')
  then have "Submitted p' q a' \<in> set (events r)" by simp
  from pending_startD[OF s this] show ?case using n by auto
qed

lemma pending_follow_awaiting:
  assumes s: "pending_follow r" and n: "heap r (fresh r) = None"
  shows "pending_follow (r\<lparr>heap := (heap r)(fresh r \<mapsto> Pending [Follow p]),
       fresh := Suc (fresh r), own := insert (fresh r) (own r),
       events := events r @ [Awaiting p (fresh r)]\<rparr>)"
proof (rule pending_followI, goal_cases)
  case (1 p' q)
  show ?case
  proof (cases "Awaiting p' q \<in> set (events r)")
    case True
    from pending_followD[OF s True] show ?thesis using n by auto
  next
    case False
    with 1 show ?thesis by auto
  qed
qed

lemma pending_start_run:
  assumes i: "inv_heap r" and s: "pending_start r"
  shows "pending_start (chain_action a r)"
proof -
  note d = inv_heapD[OF i]
  show ?thesis
  proof (rule run_cases[OF i])
    fix rs assume h: "heap r (last_promise r) = Some (Pending rs)"
    show ?thesis
      unfolding run_pending[OF h d(1)]
    proof (rule pending_startI, goal_cases)
      case (1 p q a')
      show ?case
      proof (cases "Submitted p q a' \<in> set (events r)")
        case True
        from pending_startD[OF s True] show ?thesis using h d(2)
          by (cases "q = last_promise r") auto
      next
        case False
        with 1 show ?thesis by auto
      qed
    qed
  next
    fix oc assume h: "heap r (last_promise r) = Some (Settled oc)"
    show ?thesis
      unfolding run_settled[OF h d(1)]
    proof (rule pending_startI, goal_cases)
      case (1 p q a')
      show ?case
      proof (cases "Submitted p q a' \<in> set (events r)")
        case True
        from pending_startD[OF s True] show ?thesis using d(2) by auto
      next
        case False
        with 1 show ?thesis by auto
      qed
    qed
  qed
qed

lemma pending_follow_run:
  assumes i: "inv_heap r" and s: "pending_follow r"
  shows "pending_follow (chain_action a r)"
proof -
  note d = inv_heapD[OF i]
  show ?thesis
  proof (rule run_cases[OF i])
    fix rs assume h: "heap r (last_promise r) = Some (Pending rs)"
    show ?thesis
      unfolding run_pending[OF h d(1)]
    proof (rule pending_followI, goal_cases)
      case (1 p q)
      then have "Awaiting p q \<in> set (events r)" by simp
      from pending_followD[OF s this] show ?case using h d(2)
        by (cases "q = last_promise r"; cases "p = last_promise r") auto
    qed
  next
    fix oc assume h: "heap r (last_promise r) = Some (Settled oc)"
    show ?thesis
      unfolding run_settled[OF h d(1)]
    proof (rule pending_followI, goal_cases)
      case (1 p q)
      then have "Awaiting p q \<in> set (events r)" by simp
      from pending_followD[OF s this] show ?case using d(2) by auto
    qed
  qed
qed

lemma pending_step:
  assumes c: "consistent r" and s: "pending_start r" and f: "pending_follow r"
  shows "pending_start (step r i) \<and> pending_follow (step r i)"
proof -
  from c have h: "inv_heap r" and b: "inv_sub r" and w: "inv_follow r"
    by (simp_all add: consistent_def)
  note d = inv_heapD[OF h]
  show ?thesis
  proof (cases i)
    case (Run action)
    then show ?thesis using s f pending_start_run[OF h s] pending_follow_run[OF h f]
      by (cases action) (simp_all add: run_def)
  next
    case Tick
    show ?thesis
    proof (cases "jobs r")
      case Nil
      then show ?thesis using s f Tick by simp
    next
      case (Cons j js)
      obtain x oc where j: "j = (x, oc)" by (cases j)
      show ?thesis
      proof (cases x)
        case (RunAction a p)
        let ?rp = "r\<lparr>jobs := js, events := events r @ [Started p]\<rparr>"
        have jr: "jobs r = (RunAction a p, oc) # js" using Cons j RunAction by simp
        note sp = pending_start_pop_started[OF s jr]
        note fp = pending_follow_pop_started[OF f jr]
        have st: "step r i = call_action a p (r\<lparr>jobs := js\<rparr>)"
          using Tick jr by (simp add: react_def)
        show ?thesis
        proof (cases a)
          case (Throws e)
          have "step r i = settle p (Rejected e) ?rp"
            by (simp add: st Throws call_action_Throws)
          then show ?thesis using pending_start_settle[OF sp] pending_follow_settle[OF fp] by simp
        next
          case (Returns v)
          have "step r i = settle p (Fulfilled v) ?rp"
            by (simp add: st Returns call_action_Returns)
          then show ?thesis using pending_start_settle[OF sp] pending_follow_settle[OF fp] by simp
        next
          case ReturnsPromise
          have n: "heap ?rp (fresh ?rp) = None" using d(2) by simp
          have "step r i = ?rp\<lparr>heap := (heap ?rp)(fresh ?rp \<mapsto> Pending [Follow p]),
              fresh := Suc (fresh ?rp), own := insert (fresh ?rp) (own ?rp),
              events := events ?rp @ [Awaiting p (fresh ?rp)]\<rparr>"
            by (simp add: st ReturnsPromise call_action_ReturnsPromise)
          then show ?thesis
            using pending_start_awaiting[OF sp n, of p] pending_follow_awaiting[OF fp n, of p]
            by simp
        qed
      next
        case (Follow p)
        have jr: "jobs r = (Follow p, oc) # js" using Cons j Follow by simp
        have st: "step r i = settle p oc (r\<lparr>jobs := js\<rparr>)"
          using Tick jr by (simp add: react_def)
        have "(Follow p, oc) \<in> set (jobs r)" using jr by simp
        from inv_followD(2)[OF w this] inv_followD(3)[OF w] have "Started p \<in> set (events r)"
          by blast
        from inv_subD(3)[OF b this] d(4) have hp: "heap r p \<noteq> None" by blast
        show ?thesis
          using pending_start_settle[OF pending_start_pop_follow[OF s jr]]
            pending_follow_pop_follow[OF f jr hp]
          by (simp add: st)
      qed
    qed
  next
    case (Resolve q oc)
    then show ?thesis using s f pending_start_settle[OF s] pending_follow_settle[OF f] by simp
  qed
qed

lemma pending_execute:
  "pending_start (foldl step (taskQueue u) ins) \<and> pending_follow (foldl step (taskQueue u) ins)"
proof (induction ins rule: rev_induct)
  case Nil
  then show ?case by (simp add: pending_start_def pending_follow_def taskQueue_def)
next
  case (snoc i ins)
  then show ?case using pending_step[OF consistent_execute[of u ins]] by simp
qed

subsection \<open>Microtasks run in the order they were queued\<close>

lemma settle_jobs: "\<exists>more. jobs (settle p oc r) = jobs r @ more"
  by (rule settle_cases[where r=r and p=p and oc=oc]) (auto simp: settle_pending)

lemma call_action_jobs: "\<exists>more. jobs (call_action a p r) = jobs r @ more"
proof (cases a)
  case (Throws e)
  then show ?thesis
    using settle_jobs[of p "Rejected e" "r\<lparr>events := events r @ [Started p]\<rparr>"]
    by (simp add: call_action_Throws)
next
  case (Returns v)
  then show ?thesis
    using settle_jobs[of p "Fulfilled v" "r\<lparr>events := events r @ [Started p]\<rparr>"]
    by (simp add: call_action_Returns)
next
  case ReturnsPromise
  then show ?thesis by (simp add: call_action_ReturnsPromise)
qed

lemma tick_jobs:
  assumes "jobs r = j # js"
  shows "\<exists>more. jobs (step r Tick) = js @ more"
proof -
  obtain x oc where j: "j = (x, oc)" by (cases j)
  show ?thesis
    using assms j call_action_jobs[of _ _ "r\<lparr>jobs := js\<rparr>"] settle_jobs[of _ oc "r\<lparr>jobs := js\<rparr>"]
    by (cases x) (auto simp: react_def)
qed

lemma call_action_started: "Started p \<in> set (events (call_action a p r))"
proof (cases a)
  case (Throws e)
  then show ?thesis
    using settle_events_sub[of "r\<lparr>events := events r @ [Started p]\<rparr>" p "Rejected e"]
    by (auto simp: call_action_Throws)
next
  case (Returns v)
  then show ?thesis
    using settle_events_sub[of "r\<lparr>events := events r @ [Started p]\<rparr>" p "Fulfilled v"]
    by (auto simp: call_action_Returns)
next
  case ReturnsPromise
  then show ?thesis by (simp add: call_action_ReturnsPromise)
qed

lemma drain_Suc: "drain (Suc n) r = drain n (step r Tick)"
  by (simp add: drain_def)

lemma drain_events_sub: "set (events r) \<subseteq> set (events (drain n r))"
proof (induction n arbitrary: r)
  case 0
  then show ?case by (simp add: drain_def)
next
  case (Suc n)
  show ?case using step_events_sub[of r Tick] Suc[of "step r Tick"] by (auto simp: drain_Suc)
qed

lemma drain_add: "drain (m + n) r = drain n (drain m r)"
  by (simp add: drain_def replicate_add)

lemma drain_mono: "m \<le> n \<Longrightarrow> set (events (drain m r)) \<subseteq> set (events (drain n r))"
  using drain_events_sub[of "drain m r" "n - m"] drain_add[of m "n - m" r] by simp

lemma consistent_drain: "consistent r \<Longrightarrow> consistent (drain n r)"
proof (induction n arbitrary: r)
  case 0
  then show ?case by (simp add: drain_def)
next
  case (Suc n)
  from Suc.IH[OF consistent_step[OF Suc.prems, of Tick]] show ?case by (simp only: drain_Suc)
qed



lemma drain_runs_job:
  assumes "jobs r = pre @ (RunAction a p, oc) # post"
  shows "Started p \<in> set (events (drain (Suc (length pre)) r))"
  using assms
proof (induction pre arbitrary: r post)
  case Nil
  then show ?case using call_action_started[of p a "r\<lparr>jobs := post\<rparr>"]
    by (simp add: drain_def react_def)
next
  case (Cons j pre)
  then have "jobs r = j # (pre @ (RunAction a p, oc) # post)" by simp
  from tick_jobs[OF this] obtain more where
    "jobs (step r Tick) = pre @ (RunAction a p, oc) # (post @ more)" by auto
  from Cons.IH[OF this] show ?case by (simp add: drain_Suc)
qed

lemma drain_starts_queued:
  assumes "(RunAction a p, oc) \<in> set (jobs r)"
  shows "Started p \<in> set (events (drain (length (jobs r)) r))"
proof -
  from assms obtain pre post where j: "jobs r = pre @ (RunAction a p, oc) # post"
    by (auto simp: in_set_conv_decomp)
  then have "Suc (length pre) \<le> length (jobs r)" by simp
  from drain_mono[OF this] drain_runs_job[OF j] show ?thesis by blast
qed


lemma starts_append: "starts (xs @ ys) = starts xs @ starts ys"
  by (induction xs) (auto split: qevent.splits)

lemma set_starts: "p \<in> set (starts evs) \<longleftrightarrow> Started p \<in> set evs"
  by (induction evs) (auto split: qevent.splits)

lemma targets_append: "targets (xs @ ys) = targets xs @ targets ys"
  by (induction xs) (auto split: reaction.splits)

lemma set_targets: "p \<in> set (targets xs) \<longleftrightarrow> (\<exists>a. RunAction a p \<in> set xs)"
  by (induction xs) (auto split: reaction.splits)

lemma set_job_targets:
  "p \<in> set (targets (map fst js)) \<longleftrightarrow> (\<exists>a oc. (RunAction a p, oc) \<in> set js)"
  by (induction js) (auto split: reaction.splits)

lemma map_fst_pair: "map fst (map (\<lambda>x. (x, oc)) rs) = rs"
  by (induction rs) auto

lemma map_fst_pair_comp: "map (fst \<circ> (\<lambda>x. (x, oc))) rs = rs"
  by (induction rs) auto

lemma onceD:
  assumes "once r"
  shows "distinct (starts (events r))" and "distinct (targets (map fst (jobs r)))"
    and "\<And>p. p \<in> set (targets (map fst (jobs r))) \<Longrightarrow> Started p \<notin> set (events r)"
    and "\<And>q rs. heap r q = Some (Pending rs) \<Longrightarrow> distinct (targets rs)"
    and "\<And>q rs p. heap r q = Some (Pending rs) \<Longrightarrow> p \<in> set (targets rs)
           \<Longrightarrow> Started p \<notin> set (events r)"
    and "\<And>p q q'. Awaiting p q \<in> set (events r) \<Longrightarrow> Awaiting p q' \<in> set (events r) \<Longrightarrow> q = q'"
  using assms unfolding once_def by blast+

lemma onceI:
  assumes "distinct (starts (events r))" and "distinct (targets (map fst (jobs r)))"
    and "\<And>p. p \<in> set (targets (map fst (jobs r))) \<Longrightarrow> Started p \<notin> set (events r)"
    and "\<And>q rs. heap r q = Some (Pending rs) \<Longrightarrow> distinct (targets rs)"
    and "\<And>q rs p. heap r q = Some (Pending rs) \<Longrightarrow> p \<in> set (targets rs)
           \<Longrightarrow> Started p \<notin> set (events r)"
    and "\<And>p q q'. Awaiting p q \<in> set (events r) \<Longrightarrow> Awaiting p q' \<in> set (events r) \<Longrightarrow> q = q'"
  shows "once r"
  using assms unfolding once_def by blast

text \<open>A callback waiting on a pending promise is not also in the microtask queue.\<close>

lemma waiting_not_queued:
  assumes c: "consistent r" and h: "heap r q = Some (Pending rs)" and w: "p \<in> set (targets rs)"
  shows "p \<notin> set (targets (map fst (jobs r)))"
proof
  assume "p \<in> set (targets (map fst (jobs r)))"
  then obtain a oc where j: "(RunAction a p, oc) \<in> set (jobs r)" by (auto simp: set_job_targets)
  from c have u: "inv_run r" and b: "inv_sub r" and t: "inv_settled r" and i: "inv_heap r"
    by (simp_all add: consistent_def)
  from w obtain a' where "RunAction a' p \<in> set rs" by (auto simp: set_targets)
  from inv_runD(1)[OF u h this] have s: "Submitted p q a' \<in> set (events r)" .
  from inv_runD(2)[OF u j] obtain q' where
    s': "Submitted p q' a \<in> set (events r)" and z: "q' = 0 \<or> SettledP q' oc \<in> set (events r)"
    by blast
  from inv_subD(2)[OF b s s'] have e: "q = q'" by simp
  from z show False
  proof
    assume "q' = 0"
    with e h inv_heapD(6)[OF i] show False by auto
  next
    assume "SettledP q' oc \<in> set (events r)"
    from inv_settledD(1)[OF t this] e h show False by simp
  qed
qed

lemma once_settle:
  assumes c: "consistent r" and o: "once r"
  shows "once (settle p oc r)"
proof (rule settle_cases[where r=r and p=p and oc=oc])
  fix rs assume h: "heap r p = Some (Pending rs)"
  note d = onceD[OF o]
  show ?thesis
    unfolding settle_pending[OF h]
  proof (rule onceI, goal_cases)
    case 1
    then show ?case using d(1) by (simp add: starts_append)
  next
    case 2
    have "set (targets (map fst (jobs r))) \<inter> set (targets rs) = {}"
      using waiting_not_queued[OF c h] by blast
    then show ?case using d(2) d(4)[OF h] by (simp add: targets_append map_fst_pair map_fst_pair_comp)
  next
    case (3 p')
    then show ?case using d(3)[of p'] d(5)[OF h, of p']
      by (auto simp: targets_append map_fst_pair map_fst_pair_comp)
  next
    case (4 q rs')
    then show ?case using d(4)[of q rs'] by (auto split: if_splits)
  next
    case (5 q rs' p')
    then show ?case using d(5)[of q rs' p'] by (auto split: if_splits)
  next
    case (6 p' q q')
    then show ?case using d(6)[of p' q q'] by simp
  qed
next
  assume "settle p oc r = r"
  then show ?thesis using o by simp
qed

lemma once_run:
  assumes c: "consistent r" and o: "once r"
  shows "once (chain_action a r)"
proof -
  from c have i: "inv_heap r" and u: "inv_run r" and b: "inv_sub r"
    by (simp_all add: consistent_def)
  note d = inv_heapD[OF i]
  note g = onceD[OF o]
  have nf: "Started (fresh r) \<notin> set (events r)" using inv_subD(3)[OF b, of "fresh r"] by auto
  have nj: "fresh r \<notin> set (targets (map fst (jobs r)))"
  proof
    assume "fresh r \<in> set (targets (map fst (jobs r)))"
    then obtain a' oc where "(RunAction a' (fresh r), oc) \<in> set (jobs r)"
      by (auto simp: set_job_targets)
    from inv_runD(2)[OF u this] inv_subD(1)[OF b] show False by blast
  qed
  have nh: "fresh r \<notin> set (targets rs)" if "heap r q = Some (Pending rs)" for q rs
  proof
    assume "fresh r \<in> set (targets rs)"
    then obtain a' where "RunAction a' (fresh r) \<in> set rs" by (auto simp: set_targets)
    from inv_runD(1)[OF u that this] inv_subD(1)[OF b] show False by blast
  qed
  show ?thesis
  proof (rule run_cases[OF i])
    fix rs assume h: "heap r (last_promise r) = Some (Pending rs)"
    show ?thesis
      unfolding run_pending[OF h d(1)]
    proof (rule onceI, goal_cases)
      case 1
      then show ?case using g(1) by (simp add: starts_append)
    next
      case 2
      then show ?case using g(2) by simp
    next
      case (3 p)
      then show ?case using g(3)[of p] by auto
    next
      case (4 q rs')
      then show ?case using g(4)[of q rs'] g(4)[OF h] nh[OF h]
        by (auto simp: targets_append split: if_splits)
    next
      case (5 q rs' p)
      then show ?case using g(5)[of q rs' p] g(5)[OF h, of p] nf
        by (auto simp: targets_append split: if_splits)
    next
      case (6 p q q')
      then show ?case using g(6)[of p q q'] by simp
    qed
  next
    fix oc assume h: "heap r (last_promise r) = Some (Settled oc)"
    show ?thesis
      unfolding run_settled[OF h d(1)]
    proof (rule onceI, goal_cases)
      case 1
      then show ?case using g(1) by (simp add: starts_append)
    next
      case 2
      then show ?case using g(2) nj by (simp add: targets_append)
    next
      case (3 p)
      then show ?case using g(3)[of p] nf by (auto simp: targets_append)
    next
      case (4 q rs')
      then show ?case using g(4)[of q rs'] by (auto split: if_splits)
    next
      case (5 q rs' p)
      then show ?case using g(5)[of q rs' p] by (auto split: if_splits)
    next
      case (6 p q q')
      then show ?case using g(6)[of p q q'] by simp
    qed
  qed
qed

lemma once_pop_started:
  assumes c: "consistent r" and o: "once r" and j: "jobs r = (RunAction a p, oc) # js"
  shows "once (r\<lparr>jobs := js, events := events r @ [Started p]\<rparr>)"
proof (rule onceI, goal_cases)
  note g = onceD[OF o]
  have np: "Started p \<notin> set (events r)" using g(3)[of p] j by simp
  {
    case 1
    then show ?case using g(1) np by (simp add: starts_append set_starts)
  next
    case 2
    then show ?case using g(2) j by simp
  next
    case (3 p')
    then show ?case using g(3)[of p'] g(2) j by auto
  next
    case (4 q rs)
    then show ?case using g(4)[of q rs] by simp
  next
    case (5 q rs p')
    then have h: "heap r q = Some (Pending rs)" and m: "p' \<in> set (targets rs)" by simp_all
    from waiting_not_queued[OF c h m] j have "p' \<noteq> p" by auto
    then show ?case using g(5)[OF h m] by simp
  next
    case (6 p' q q')
    then show ?case using g(6)[of p' q q'] by simp
  }
qed

lemma once_pop_follow:
  assumes o: "once r" and j: "jobs r = (Follow p, oc) # js"
  shows "once (r\<lparr>jobs := js\<rparr>)"
proof (rule onceI, goal_cases)
  note g = onceD[OF o]
  {
    case 1
    then show ?case using g(1) by simp
  next
    case 2
    then show ?case using g(2) j by simp
  next
    case (3 p')
    then show ?case using g(3)[of p'] j by simp
  next
    case (4 q rs)
    then show ?case using g(4)[of q rs] by simp
  next
    case (5 q rs p')
    then show ?case using g(5)[of q rs p'] by simp
  next
    case (6 p' q q')
    then show ?case using g(6)[of p' q q'] by simp
  }
qed

lemma once_awaiting:
  assumes o: "once r" and n: "heap r (fresh r) = None"
    and na: "\<And>q. Awaiting p q \<notin> set (events r)"
  shows "once (r\<lparr>heap := (heap r)(fresh r \<mapsto> Pending [Follow p]),
       fresh := Suc (fresh r), own := insert (fresh r) (own r),
       events := events r @ [Awaiting p (fresh r)]\<rparr>)"
proof (rule onceI, goal_cases)
  note g = onceD[OF o]
  {
    case 1
    then show ?case using g(1) by (simp add: starts_append)
  next
    case 2
    then show ?case using g(2) by simp
  next
    case (3 p')
    then show ?case using g(3)[of p'] by simp
  next
    case (4 q rs)
    then show ?case using g(4)[of q rs] by (auto split: if_splits)
  next
    case (5 q rs p')
    then show ?case using g(5)[of q rs p'] by (auto split: if_splits)
  next
    case (6 p' q q')
    then show ?case using g(6)[of p' q q'] na by auto
  }
qed

lemma once_step:
  assumes c: "consistent r" and o: "once r"
  shows "once (step r i)"
proof (cases i)
  case (Run action)
  then show ?thesis using o once_run[OF c o] by (cases action) (simp_all add: run_def)
next
  case Tick
  show ?thesis
  proof (cases "jobs r")
    case Nil
    then show ?thesis using o Tick by simp
  next
    case (Cons j js)
    obtain x oc where j: "j = (x, oc)" by (cases j)
    from c have h: "inv_heap r" and b: "inv_sub r" and u: "inv_run r" and w: "inv_follow r"
      by (simp_all add: consistent_def)
    show ?thesis
    proof (cases x)
      case (RunAction a p)
      let ?rp = "r\<lparr>jobs := js, events := events r @ [Started p]\<rparr>"
      have jr: "jobs r = (RunAction a p, oc) # js" using Cons j RunAction by simp
      then have "(RunAction a p, oc) \<in> set (jobs r)" by simp
      from inv_runD(2)[OF u this] inv_subD(1)[OF b] have pf: "p < fresh r" by blast
      have cp: "consistent ?rp"
        using consistent_started[OF consistent_pop[OF c Cons], of p] pf by simp
      note op = once_pop_started[OF c o jr]
      have st: "step r i = call_action a p (r\<lparr>jobs := js\<rparr>)"
        using Tick jr by (simp add: react_def)
      show ?thesis
      proof (cases a)
        case (Throws e)
        have "step r i = settle p (Rejected e) ?rp"
          by (simp add: st Throws call_action_Throws)
        then show ?thesis using once_settle[OF cp op] by simp
      next
        case (Returns v)
        have "step r i = settle p (Fulfilled v) ?rp"
          by (simp add: st Returns call_action_Returns)
        then show ?thesis using once_settle[OF cp op] by simp
      next
        case ReturnsPromise
        have n: "heap ?rp (fresh ?rp) = None" using inv_heapD(2)[OF h] by simp
        have np: "Started p \<notin> set (events r)" using onceD(3)[OF o, of p] jr by simp
        have na: "Awaiting p q \<notin> set (events ?rp)" for q
          using inv_followD(3)[OF w, of p q] np by auto
        have "step r i = ?rp\<lparr>heap := (heap ?rp)(fresh ?rp \<mapsto> Pending [Follow p]),
            fresh := Suc (fresh ?rp), own := insert (fresh ?rp) (own ?rp),
            events := events ?rp @ [Awaiting p (fresh ?rp)]\<rparr>"
          by (simp add: st ReturnsPromise call_action_ReturnsPromise)
        then show ?thesis using once_awaiting[OF op n na] by simp
      qed
    next
      case (Follow p)
      have jr: "jobs r = (Follow p, oc) # js" using Cons j Follow by simp
      have "once (settle p oc (r\<lparr>jobs := js\<rparr>))"
        by (rule once_settle[OF consistent_pop[OF c Cons] once_pop_follow[OF o jr]])
      then show ?thesis using Tick jr by (simp add: react_def)
    qed
  qed
next
  case (Resolve q oc)
  then show ?thesis using o once_settle[OF c o] by simp
qed

lemma once_execute: "once (foldl step (taskQueue u) ins)"
proof (induction ins rule: rev_induct)
  case Nil
  then show ?case by (simp add: once_def taskQueue_def)
next
  case (snoc i ins)
  then show ?case using once_step[OF consistent_execute[of u ins]] by simp
qed

lemma guarded_mem:
  assumes "guarded P Q xs" and "x \<in> set xs" and "Q x"
  shows "\<exists>y \<in> set xs. P y"
proof -
  from assms(2) obtain i where i: "i < length xs" "xs ! i = x" by (auto simp: in_set_conv_nth)
  with assms(1,3) obtain j where "j < i" "P (xs ! j)" unfolding guarded_nth by blast
  with i show ?thesis by (auto intro!: bexI[where x="xs ! j"])
qed

lemma traced_snoc:
  assumes t: "traced r" and ev: "events r' = events r @ [e]"
    and c1: "\<And>p. e = Started p \<Longrightarrow> \<exists>q a. Submitted p q a \<in> set (events r)"
    and c2: "\<And>p q oc. e = Awaiting p q \<Longrightarrow> SettledP p oc \<notin> set (events r)"
    and c3: "\<And>p oc q. e = SettledP p oc \<Longrightarrow> Awaiting p q \<in> set (events r)
               \<Longrightarrow> \<exists>oc'. SettledP q oc' \<in> set (events r)"
  shows "traced r'"
  unfolding traced_def
proof (intro conjI allI impI)
  fix p assume "Started p \<in> set (events r')"
  then have "Started p \<in> set (events r) \<or> e = Started p" by (auto simp: ev)
  then show "\<exists>q a. Submitted p q a \<in> set (events r')"
  proof
    assume "Started p \<in> set (events r)"
    with t obtain q a where "Submitted p q a \<in> set (events r)" unfolding traced_def by blast
    then show ?thesis by (auto simp: ev)
  next
    assume "e = Started p"
    from c1[OF this] show ?thesis by (auto simp: ev)
  qed
next
  fix p q assume a: "Awaiting p q \<in> set (events r')"
  show "guarded (is_settled q) (is_settled p) (events r')"
  proof (cases "Awaiting p q \<in> set (events r)")
    case True
    with t have g: "guarded (is_settled q) (is_settled p) (events r)" unfolding traced_def by blast
    have "is_settled p e \<longrightarrow> (\<exists>x \<in> set (events r). is_settled q x)"
    proof
      assume "is_settled p e"
      then obtain oc where "e = SettledP p oc" by (auto simp: is_settled_iff)
      from c3[OF this True] show "\<exists>x \<in> set (events r). is_settled q x"
        by (auto simp: is_settled_iff)
    qed
    with g show ?thesis by (simp add: ev guarded_snoc)
  next
    case False
    with a have e: "e = Awaiting p q" by (auto simp: ev)
    have "guarded (is_settled q) (is_settled p) (events r)"
      by (rule guarded_none) (use c2[OF e] in \<open>auto simp: is_settled_iff\<close>)
    then show ?thesis by (simp add: ev guarded_snoc e is_settled_iff)
  qed
qed

lemma traced_same: "traced r \<Longrightarrow> events r' = events r \<Longrightarrow> traced r'"
  by (simp add: traced_def)

lemma traced_settle:
  assumes t: "traced r"
    and c: "\<And>q. Awaiting p q \<in> set (events r) \<Longrightarrow> \<exists>oc'. SettledP q oc' \<in> set (events r)"
  shows "traced (settle p oc r)"
proof (rule settle_cases[where r=r and p=p and oc=oc])
  fix rs assume h: "heap r p = Some (Pending rs)"
  show ?thesis
    by (rule traced_snoc[OF t, where e="SettledP p oc"]) (use c in \<open>auto simp: settle_pending[OF h]\<close>)
next
  assume "settle p oc r = r"
  then show ?thesis using t by simp
qed

lemma traced_step:
  assumes c: "consistent r" and o: "once r" and d: "ordered r" and t: "traced r"
  shows "traced (step r i)"
proof -
  from c have h: "inv_heap r" and b: "inv_sub r" and u: "inv_run r" and w: "inv_follow r"
    by (simp_all add: consistent_def)
  show ?thesis
  proof (cases i)
    case (Run action)
    have "traced (chain_action a r)" for a
      by (rule traced_snoc[OF t, where e="Submitted (fresh r) (last_promise r) a"])
        (auto simp: run_events)
    with Run t show ?thesis by (cases action) (simp_all add: run_def)
  next
    case Tick
    show ?thesis
    proof (cases "jobs r")
      case Nil
      then show ?thesis using t Tick by simp
    next
      case (Cons j js)
      obtain x oc where j: "j = (x, oc)" by (cases j)
      show ?thesis
      proof (cases x)
        case (RunAction a p)
        let ?rp = "r\<lparr>jobs := js, events := events r @ [Started p]\<rparr>"
        have jr: "jobs r = (RunAction a p, oc) # js" using Cons j RunAction by simp
        then have m: "(RunAction a p, oc) \<in> set (jobs r)" by simp
        from inv_runD(2)[OF u m] obtain q0 where s: "Submitted p q0 a \<in> set (events r)" by blast
        have np: "Started p \<notin> set (events r)" using onceD(3)[OF o, of p] jr by simp
        have na: "Awaiting p q \<notin> set (events r)" for q
          using inv_followD(3)[OF w, of p q] np by auto
        have ns: "SettledP p oc' \<notin> set (events r)" for oc'
        proof
          assume a: "SettledP p oc' \<in> set (events r)"
          from inv_subD(1)[OF b s] have "p \<notin> own r" by simp
          with d have "guarded (is_started p) (is_settled p) (events r)"
            unfolding ordered_def by blast
          from guarded_mem[OF this a] np show False by (auto simp: is_settled_iff is_started_iff)
        qed
        have tp: "traced ?rp"
          by (rule traced_snoc[OF t, where e="Started p"]) (use s in auto)
        have st: "step r i = call_action a p (r\<lparr>jobs := js\<rparr>)"
          using Tick jr by (simp add: react_def)
        show ?thesis
        proof (cases a)
          case (Throws e)
          have "step r i = settle p (Rejected e) ?rp"
            by (simp add: st Throws call_action_Throws)
          moreover have "traced (settle p (Rejected e) ?rp)"
            by (rule traced_settle[OF tp]) (use na in auto)
          ultimately show ?thesis by simp
        next
          case (Returns v)
          have "step r i = settle p (Fulfilled v) ?rp"
            by (simp add: st Returns call_action_Returns)
          moreover have "traced (settle p (Fulfilled v) ?rp)"
            by (rule traced_settle[OF tp]) (use na in auto)
          ultimately show ?thesis by simp
        next
          case ReturnsPromise
          have "traced (call_action ReturnsPromise p (r\<lparr>jobs := js\<rparr>))"
            by (rule traced_snoc[OF tp, where e="Awaiting p (fresh r)"])
              (use ns in \<open>auto simp: call_action_ReturnsPromise\<close>)
          then show ?thesis by (simp add: st ReturnsPromise)
        qed
      next
        case (Follow p)
        have jr: "jobs r = (Follow p, oc) # js" using Cons j Follow by simp
        then have m: "(Follow p, oc) \<in> set (jobs r)" by simp
        from inv_followD(2)[OF w m] obtain q' where
          a': "Awaiting p q' \<in> set (events r)" and s': "SettledP q' oc \<in> set (events r)" by blast
        have "traced (settle p oc (r\<lparr>jobs := js\<rparr>))"
        proof (rule traced_settle)
          show "traced (r\<lparr>jobs := js\<rparr>)" by (rule traced_same[OF t]) simp
        next
          fix q assume "Awaiting p q \<in> set (events (r\<lparr>jobs := js\<rparr>))"
          then have "q = q'" using onceD(6)[OF o _ a', of q] by simp
          with s' show "\<exists>oc'. SettledP q oc' \<in> set (events (r\<lparr>jobs := js\<rparr>))" by auto
        qed
        then show ?thesis using Tick jr by (simp add: react_def)
      qed
    qed
  next
    case (Resolve q oc)
    show ?thesis
    proof (cases "q \<in> own r")
      case True
      have "traced (settle q oc r)"
      proof (rule traced_settle[OF t])
        fix q' assume "Awaiting q q' \<in> set (events r)"
        from inv_followD(3)[OF w this] inv_subD(1)[OF b, of q] True
        show "\<exists>oc'. SettledP q' oc' \<in> set (events r)" by blast
      qed
      with Resolve True show ?thesis by simp
    next
      case False
      with Resolve t show ?thesis by simp
    qed
  qed
qed

lemma traced_execute: "traced (foldl step (taskQueue u) ins)"
proof (induction ins rule: rev_induct)
  case Nil
  then show ?case by (simp add: traced_def taskQueue_def)
next
  case (snoc i ins)
  then show ?case
    using traced_step[OF consistent_execute[of u ins] once_execute[of u ins] ordered_execute[of u ins]]
    by simp
qed






lemma next_starts:
  assumes c: "consistent r" and ch: "chained r" and ps: "pending_start r"
    and i: "Suc i < length (submitted (events r))"
    and s: "SettledP (submitted (events r) ! i) oc \<in> set (events r)"
  shows "Started (submitted (events r) ! Suc i) \<in> set (events (drain (length (jobs r)) r))"
proof -
  let ?c = "submitted (events r)"
  from ch i obtain a where sub: "Submitted (?c ! Suc i) (?c ! i) a \<in> set (events r)"
    unfolding chained_def by fastforce
  from c have t: "inv_settled r" by (simp add: consistent_def)
  from inv_settledD(1)[OF t s] have h: "heap r (?c ! i) = Some (Settled oc)" .
  from pending_startD[OF ps sub] h consider
    "Started (?c ! Suc i) \<in> set (events r)"
    | oc' where "(RunAction a (?c ! Suc i), oc') \<in> set (jobs r)" by auto
  then show ?thesis
  proof cases
    case 1
    then show ?thesis using drain_events_sub[of r "length (jobs r)"] by blast
  next
    case 2
    then show ?thesis by (rule drain_starts_queued)
  qed
qed



lemma all_execute:
  "consistent (execute u ins)" "ordered (execute u ins)" "chained (execute u ins)"
  "fated (execute u ins)" "pending_start (execute u ins)" "pending_follow (execute u ins)"
  "once (execute u ins)" "traced (execute u ins)"
  unfolding execute_def
  by (simp_all add: consistent_execute ordered_execute chained_execute fated_execute
      pending_execute once_execute traced_execute)






subsection \<open>requestReload and checkVersion\<close>

lemmas example_defs = example_state_def example_app_def example_settings_def

lemma reload_requests_append:
  "reload_requests (xs @ ys) = reload_requests xs @ reload_requests ys"
  by (induction xs) (auto split: effect.splits)

lemma requestReload_fields:
  "statCache (snd (requestReload v s)) = statCache s"
  "app (snd (requestReload v s)) = app s"
  "pluginNames (snd (requestReload v s)) = pluginNames s"
  "enabledPlugins (snd (requestReload v s)) = enabledPlugins s"
  "settings (snd (requestReload v s)) = settings s"
  by (auto simp: requestReload_def reloader_for_def call_reloader_def get_property_def emit_def
      Let_def split: option.splits jsvalue.splits property.splits)

lemma requestReload_requests:
  "reload_requests (trace (snd (requestReload v s))) = reload_requests (trace s) @ [v]"
  by (auto simp: requestReload_def reloader_for_def call_reloader_def get_property_def emit_def
      Let_def reload_requests_append split: option.splits jsvalue.splits property.splits)

lemma requestReload_result:
  "fst (requestReload (Str i) s) = (if request_throws s i then Inl TypeError else Inr ())"
  by (auto simp: requestReload_def reloader_for_def call_reloader_def get_property_def emit_def
      Let_def request_throws_def split: option.splits property.splits)

lemma requestReload_keeps_reloader:
  "pluginReloaders s i = Some r \<Longrightarrow> pluginReloaders (snd (requestReload v s)) i = Some r"
  by (auto simp: requestReload_def reloader_for_def call_reloader_def get_property_def emit_def
      Let_def split: option.splits jsvalue.splits property.splits)

lemma requestReload_reloaders:
  "pluginReloaders (snd (requestReload v s)) i = None \<Longrightarrow> pluginReloaders s i = None"
  using requestReload_keeps_reloader[of s i _ v] by (cases "pluginReloaders s i") auto

lemma request_throws_requestReload:
  "\<not> request_throws s i \<Longrightarrow> \<not> request_throws (snd (requestReload v s)) i"
  using requestReload_keeps_reloader[of s i _ v]
  by (auto simp: request_throws_def requestReload_fields)

lemma check_file_returns:
  assumes "\<not> request_throws s i"
  shows "fst (check_file (Str i) p s) = Inr ()"
    and "reload_requests (trace (snd (check_file (Str i) p s))) =
           reload_requests (trace s) @ (if real_change s p then [Str i] else [])"
    and "statCache (snd (check_file (Str i) p s)) =
           (case adapter_stat (app s) p of None \<Rightarrow> statCache s | Some st \<Rightarrow> (statCache s)(p \<mapsto> st))"
    and "app (snd (check_file (Str i) p s)) = app s"
    and "pluginNames (snd (check_file (Str i) p s)) = pluginNames s"
    and "enabledPlugins (snd (check_file (Str i) p s)) = enabledPlugins s"
    and "\<not> request_throws (snd (check_file (Str i) p s)) i"
proof -
  obtain res s1 where r: "requestReload (Str i) s = (res, s1)"
    by (cases "requestReload (Str i) s")
  from requestReload_result[of i s] assms r have res: "res = Inr ()" by simp
  from requestReload_fields[of "Str i" s] r have f:
    "statCache s1 = statCache s" "app s1 = app s" "pluginNames s1 = pluginNames s"
    "enabledPlugins s1 = enabledPlugins s" by simp_all
  from requestReload_requests[of "Str i" s] r
  have q: "reload_requests (trace s1) = reload_requests (trace s) @ [Str i]" by simp
  from request_throws_requestReload[OF assms, of "Str i"] r
  have t: "\<not> request_throws s1 i" by simp
  show "fst (check_file (Str i) p s) = Inr ()"
    by (auto simp: check_file_def r res split: option.splits)
  show "reload_requests (trace (snd (check_file (Str i) p s))) =
           reload_requests (trace s) @ (if real_change s p then [Str i] else [])"
    by (auto simp: check_file_def r res q real_change_def split: option.splits)
  show "statCache (snd (check_file (Str i) p s)) =
           (case adapter_stat (app s) p of None \<Rightarrow> statCache s | Some st \<Rightarrow> (statCache s)(p \<mapsto> st))"
    by (auto simp: check_file_def r res f split: option.splits)
  show "app (snd (check_file (Str i) p s)) = app s"
    by (auto simp: check_file_def r res f split: option.splits)
  show "pluginNames (snd (check_file (Str i) p s)) = pluginNames s"
    by (auto simp: check_file_def r res f split: option.splits)
  show "enabledPlugins (snd (check_file (Str i) p s)) = enabledPlugins s"
    by (auto simp: check_file_def r res f split: option.splits)
  show "\<not> request_throws (snd (check_file (Str i) p s)) i"
    using assms t by (auto simp: check_file_def r res request_throws_def split: option.splits)
qed

lemma real_change_check_file:
  assumes "\<not> request_throws s i" and "q \<noteq> p"
  shows "real_change (snd (check_file (Str i) p s)) q = real_change s q"
  using assms(2)
  by (auto simp: real_change_def check_file_returns(3,4)[OF assms(1)] split: option.splits)

text \<open>
  What \<^verbatim>\<open>checkVersion\<close> does for a plugin whose manifest gives a directory \<open>d\<close>, when the
  reload request does not throw: it calls \<^verbatim>\<open>requestReload\<close> once for each of \<open>d/main.js\<close>
  and \<open>d/styles.css\<close> that can be read, has a cached stat and a modification time different
  from the cached one, as judged in the state before the call, and for no other reason;
  afterwards the cache holds the fresh stat of each of the two files that could be read and
  is unchanged everywhere else.  A file seen for the first time is among those cached
  without a request.
\<close>

lemma checkVersion_requests_reload_on_mtime_change:
  assumes "manifest_dir (app s) plugin = Some d" and "\<not> request_throws s plugin"
  shows "fst (checkVersion (Str plugin) s) = Inr ()
         \<and> reload_requests (trace (snd (checkVersion (Str plugin) s))) =
             reload_requests (trace s) @
               map (\<lambda>p. Str plugin) (filter (real_change s) [d @ ''/main.js'', d @ ''/styles.css''])
         \<and> (\<forall>p. statCache (snd (checkVersion (Str plugin) s)) p =
               (if p \<in> {d @ ''/main.js'', d @ ''/styles.css''}
                then (case adapter_stat (app s) p of None \<Rightarrow> statCache s p | Some st \<Rightarrow> Some st)
                else statCache s p))
         \<and> pluginNames (snd (checkVersion (Str plugin) s)) = pluginNames s
         \<and> app (snd (checkVersion (Str plugin) s)) = app s"
proof -
  let ?m = "d @ ''/main.js''" and ?c = "d @ ''/styles.css''"
  let ?s1 = "snd (check_file (Str plugin) ?m s)"
  note a = check_file_returns[OF assms(2), of ?m]
  note b = check_file_returns[OF a(7), of ?c]
  have ne: "?c \<noteq> ?m" by simp
  have cv: "checkVersion (Str plugin) s = check_file (Str plugin) ?c ?s1"
    using assms(1) a(1)
    by (cases "check_file (Str plugin) ?m s")
       (auto simp: checkVersion_def property_key_def split: prod.splits sum.splits)
  have rc: "real_change ?s1 ?c = real_change s ?c"
    by (rule real_change_check_file[OF assms(2) ne])
  show ?thesis
    unfolding cv using a b rc
    by (auto split: option.splits)
qed

text \<open>
  C3.  The claim fails for a plugin whose id is the name of a member of
  \<^verbatim>\<open>Object.prototype\<close> that cannot be called without a receiver.  Such a plugin, \<^verbatim>\<open>valueOf\<close>,
  is installed with an opt-in marker; the plugin is constructed and scans (lines 25 and
  81-94), both tracked files change on disk, and the change of \<^verbatim>\<open>main.js\<close> is reported
  (line 96).  Then \<^verbatim>\<open>checkVersion\<close> requests a reload for \<^verbatim>\<open>main.js\<close>; line 110 finds
  \<^verbatim>\<open>Object.prototype.valueOf\<close> where a reloader would be, line 113 calls it and it throws.
  No debounced reloader is made or invoked, \<^verbatim>\<open>styles.css\<close> is never looked at although it
  changed, and the cache keeps the old stat of both files, so every later report of the
  same change ends the same way.
\<close>

theorem checkVersion_stops_at_inherited_reloader:
  "manifest_dir (app member_named_state) ''valueOf'' = Some ''.obsidian/plugins/valueOf''
   \<and> real_change member_named_state ''.obsidian/plugins/valueOf/main.js''
   \<and> real_change member_named_state ''.obsidian/plugins/valueOf/styles.css''
   \<and> fst (checkVersion (Str ''valueOf'') member_named_state) = Inl TypeError
   \<and> new_events member_named_state (snd (checkVersion (Str ''valueOf'') member_named_state))
       = [ReloadRequested (Str ''valueOf''), MemberCalled ''valueOf'']
   \<and> statCache (snd (checkVersion (Str ''valueOf'') member_named_state))
       = statCache member_named_state
   \<and> new_events member_named_state
         (onFileChange ''.obsidian/plugins/valueOf/main.js'' member_named_state)
       = [ReloadRequested (Str ''valueOf''), MemberCalled ''valueOf'']
   \<and> statCache (onFileChange ''.obsidian/plugins/valueOf/main.js'' member_named_state)
       = statCache member_named_state"
  by (simp add: member_named_state_def member_named_app_def new_plugin_def example_defs
      getPluginNames_def scan_manifest_def set_property_def has_marker_def watch_def
      checkVersions_def checkVersion_def check_file_def manifest_dir_def property_key_def
      requestReload_def reloader_for_def call_reloader_def get_property_def object_prototype_def
      returns_without_receiver_def emit_def Let_def real_change_def new_events_def
      onFileChange_def startsWith_def pop_def known_plugin_def)

text \<open>
  C6 (amended).  For a plugin whose \<^verbatim>\<open>manifests\<close> entry is missing or has no directory,
  \<^verbatim>\<open>checkVersion\<close> makes no call at all (so requests no reload) and leaves the stat cache
  exactly as it was: no entry is purged.  When the plugin is recorded in \<^verbatim>\<open>pluginNames\<close>
  under its own id, it is removed from the mapping and the other entries stay.
\<close>

theorem checkVersion_uninstalled:
  assumes "manifest_dir (app s) plugin = None"
  shows "fst (checkVersion (Str plugin) s) = Inr ()
         \<and> trace (snd (checkVersion (Str plugin) s)) = trace s
         \<and> statCache (snd (checkVersion (Str plugin) s)) = statCache s
         \<and> pluginReloaders (snd (checkVersion (Str plugin) s)) = pluginReloaders s
         \<and> enabledPlugins (snd (checkVersion (Str plugin) s)) = enabledPlugins s
         \<and> app (snd (checkVersion (Str plugin) s)) = app s
         \<and> (recorded_under_id plugin (pluginNames s) \<longrightarrow>
              pluginNames (snd (checkVersion (Str plugin) s))
                = filter (\<lambda>(d, i). i \<noteq> plugin) (pluginNames s)
              \<and> plugin \<notin> snd ` set (pluginNames (snd (checkVersion (Str plugin) s))))"
proof -
  have "recorded_under_id plugin names \<Longrightarrow>
      AList.delete plugin names = filter (\<lambda>(d, i). i \<noteq> plugin) names" for names
    by (induction names) (auto simp: recorded_under_id_def)
  then show ?thesis
    using assms by (auto simp: checkVersion_def property_key_def)
qed

theorem checkVersion_uninstalled_witness:
  "manifest_dir (app uninstalled_state) ''foo'' = None
   \<and> recorded_under_id ''foo'' (pluginNames uninstalled_state)
   \<and> trace (snd (checkVersion (Str ''foo'') uninstalled_state)) = []
   \<and> pluginNames (snd (checkVersion (Str ''foo'') uninstalled_state)) = []"
proof -
  have d: "manifest_dir (app uninstalled_state) ''foo'' = None"
    by (simp add: manifest_dir_def uninstalled_state_def example_state_def example_app_def)
  have r: "recorded_under_id ''foo'' (pluginNames uninstalled_state)"
    by (simp add: recorded_under_id_def uninstalled_state_def example_state_def)
  show ?thesis
    using d r checkVersion_uninstalled [OF d]
    by (simp add: uninstalled_state_def example_state_def)
qed

text \<open>
  C6 as stated fails: the manifest of \<^verbatim>\<open>foo\<close> is gone, \<^verbatim>\<open>checkVersion\<close> runs, and the
  cached stat of its \<^verbatim>\<open>main.js\<close> is still in the cache.
\<close>

theorem checkVersion_keeps_stale_cache_counterexample:
  "manifest_dir (app uninstalled_state) ''foo'' = None
   \<and> statCache uninstalled_state ''.obsidian/plugins/foo/main.js''
       = Some \<lparr>ftype = File, ctime = 0, mtime = 1, fsize = 10\<rparr>
   \<and> statCache (snd (checkVersion (Str ''foo'') uninstalled_state)) ''.obsidian/plugins/foo/main.js''
       = Some \<lparr>ftype = File, ctime = 0, mtime = 1, fsize = 10\<rparr>"
  by (simp add: checkVersion_def manifest_dir_def property_key_def uninstalled_state_def
      example_state_def example_app_def)

subsection \<open>onFileChange\<close>

lemma split_slash_nonempty: "split_slash s \<noteq> []"
  by (induction s) (auto split: list.splits)

lemma split_slash_prefix: "CHR ''/'' \<notin> set a \<Longrightarrow> split_slash (a @ CHR ''/'' # b) = a # split_slash b"
  by (induction a) (auto split: list.splits simp: split_slash_nonempty)

lemma startsWith_split: "startsWith f p \<Longrightarrow> f = p @ drop (length p) f"
  by (metis append_take_drop_id startsWith_def)

lemma watch_effect:
  "watch p s =
     (if p \<notin> watchers (app s) \<and> map_option ftype (adapter_stat (app s) p) = Some Folder
         \<and> (watchNeeded (app s) \<or> isSymlink (app s) p)
      then s\<lparr>app := (app s)\<lparr>watchers := insert p (watchers (app s))\<rparr>,
             trace := trace s @ [StartWatchPath p]\<rparr>
      else s)"
  by (auto simp: watch_def startWatchPath_def emit_def split: option.splits)

text \<open>
  C5 (amended).  The host's plugin folder is \<open>cfg/plugins\<close> with \<open>cfg\<close> a single path segment
  (the code compares against the literal \<^verbatim>\<open>"plugins"\<close> and counts segments from the vault
  root).  Then \<^verbatim>\<open>onFileChange\<close> decides by the shape of the event path below that folder.
  A path that does not start with the folder and a slash changes nothing and causes no
  call.  A path with one segment below the folder is handed to \<^verbatim>\<open>watch\<close>, and nothing else
  happens; \<^verbatim>\<open>watch\<close> starts a watcher on a path exactly when the path is not watched yet,
  is a folder, and the platform needs watchers or the path is a symlink, and does nothing
  otherwise.  A path with three or more segments changes nothing.  For a path with exactly
  two, \<open>d/base\<close>: when \<open>base\<close> is \<^verbatim>\<open>manifest.json\<close>, \<^verbatim>\<open>.hotreload\<close> or \<^verbatim>\<open>.git\<close>, or when the
  lookup of \<open>d\<close> in \<^verbatim>\<open>pluginNames\<close> finds nothing, the debounced rescan is invoked once and
  nothing else happens; when \<open>d\<close> is the directory of a known plugin id \<open>i\<close>, any other file
  than \<^verbatim>\<open>main.js\<close> and \<^verbatim>\<open>styles.css\<close> changes nothing, and for these two the outcome is that
  of \<^verbatim>\<open>checkVersion\<close> for \<open>i\<close>.
\<close>

theorem onFileChange_routes_by_path_shape:
  assumes root: "pluginFolder (app s) = cfg @ ''/plugins''" and cfg: "CHR ''/'' \<notin> set cfg"
  shows
    "(\<not> startsWith filename (pluginFolder (app s) @ ''/'') \<longrightarrow> onFileChange filename s = s)
   \<and> (startsWith filename (pluginFolder (app s) @ ''/'') \<longrightarrow>
        (case below_root s filename of
           [x] \<Rightarrow> onFileChange filename s = watch filename s
         | [d, base] \<Rightarrow>
             (base \<in> {''manifest.json'', ''.hotreload'', ''.git''} \<or> known_plugin s (Some d) = None
                \<longrightarrow> onFileChange filename s = s\<lparr>trace := trace s @ [ReindexInvoked]\<rparr>)
           \<and> (\<forall>i. base \<notin> {''manifest.json'', ''.hotreload'', ''.git''}
                    \<and> known_plugin s (Some d) = Some (Str i)
                \<longrightarrow> onFileChange filename s =
                      (if base \<in> {''main.js'', ''styles.css''} then snd (checkVersion (Str i) s)
                       else s))
         | _ \<Rightarrow> onFileChange filename s = s))
   \<and> watch p s =
       (if p \<notin> watchers (app s) \<and> map_option ftype (adapter_stat (app s) p) = Some Folder
           \<and> (watchNeeded (app s) \<or> isSymlink (app s) p)
        then s\<lparr>app := (app s)\<lparr>watchers := insert p (watchers (app s))\<rparr>,
               trace := trace s @ [StartWatchPath p]\<rparr>
        else s)"
proof (intro conjI impI)
  assume "\<not> startsWith filename (pluginFolder (app s) @ ''/'')"
  then show "onFileChange filename s = s" by (simp add: onFileChange_def)
next
  assume True: "startsWith filename (pluginFolder (app s) @ ''/'')"
  define rest where "rest = drop (length (pluginFolder (app s)) + 1) filename"
  have f: "filename = cfg @ CHR ''/'' # (''plugins'' @ CHR ''/'' # rest)"
    using startsWith_split[OF True] by (simp add: rest_def root)
  have sp: "split_slash filename = cfg # ''plugins'' # split_slash rest"
    by (subst f, subst split_slash_prefix[OF cfg], subst split_slash_prefix) auto
  have br: "below_root s filename = split_slash rest"
    by (simp add: below_root_def rest_def)
  obtain x xs where segs: "split_slash rest = x # xs"
    using split_slash_nonempty[of rest] by (cases "split_slash rest") auto
  show "case below_root s filename of
           [x] \<Rightarrow> onFileChange filename s = watch filename s
         | [d, base] \<Rightarrow>
             (base \<in> {''manifest.json'', ''.hotreload'', ''.git''} \<or> known_plugin s (Some d) = None
                \<longrightarrow> onFileChange filename s = s\<lparr>trace := trace s @ [ReindexInvoked]\<rparr>)
           \<and> (\<forall>i. base \<notin> {''manifest.json'', ''.hotreload'', ''.git''}
                    \<and> known_plugin s (Some d) = Some (Str i)
                \<longrightarrow> onFileChange filename s =
                      (if base \<in> {''main.js'', ''styles.css''} then snd (checkVersion (Str i) s)
                       else s))
         | _ \<Rightarrow> onFileChange filename s = s"
  proof (cases xs)
    case Nil
    then show ?thesis using True segs
      by (simp add: onFileChange_def sp pop_def br)
  next
    case (Cons y ys)
    show ?thesis
    proof (cases ys)
      case Nil
      then show ?thesis using True segs Cons
        by (auto simp: onFileChange_def sp pop_def br Let_def emit_def)
    next
      case (Cons z zs)
      then show ?thesis using True segs \<open>xs = y # ys\<close>
        by (auto simp: onFileChange_def sp pop_def br Let_def)
    qed
  qed
next
  show "watch p s =
       (if p \<notin> watchers (app s) \<and> map_option ftype (adapter_stat (app s) p) = Some Folder
           \<and> (watchNeeded (app s) \<or> isSymlink (app s) p)
        then s\<lparr>app := (app s)\<lparr>watchers := insert p (watchers (app s))\<rparr>,
               trace := trace s @ [StartWatchPath p]\<rparr>
        else s)"
    by (rule watch_effect)
qed

theorem onFileChange_routes_by_path_shape_witness:
  "pluginFolder (app new_folder_state) = ''.obsidian'' @ ''/plugins''
   \<and> CHR ''/'' \<notin> set ''.obsidian''
   \<and> onFileChange ''notes/plugins/foo/main.js'' new_folder_state = new_folder_state
   \<and> new_events new_folder_state (onFileChange ''.obsidian/plugins/bar'' new_folder_state)
       = [StartWatchPath ''.obsidian/plugins/bar'']
   \<and> watchers (app (onFileChange ''.obsidian/plugins/bar'' new_folder_state))
       = {''.obsidian/plugins/bar''}
   \<and> new_events new_folder_state
         (onFileChange ''.obsidian/plugins/foo/manifest.json'' new_folder_state)
       = [ReindexInvoked]
   \<and> new_events new_folder_state (onFileChange ''.obsidian/plugins/bar/main.js'' new_folder_state)
       = [ReindexInvoked]
   \<and> onFileChange ''.obsidian/plugins/foo/data.json'' new_folder_state = new_folder_state
   \<and> onFileChange ''.obsidian/plugins/foo/src/main.js'' new_folder_state = new_folder_state
   \<and> new_events new_folder_state (onFileChange ''.obsidian/plugins/foo/main.js'' new_folder_state)
       = [ReloadRequested (Str ''foo''), DebounceCreated 0 ''foo'' 750, DebounceInvoked 0]"
proof -
  have r: "pluginFolder (app new_folder_state) = ''.obsidian'' @ ''/plugins''"
    by (simp add: new_folder_state_def example_defs)
  have c: "CHR ''/'' \<notin> set ''.obsidian''"
    by simp
  have k: "known_plugin new_folder_state (Some ''foo'') = Some (Str ''foo'')"
    "known_plugin new_folder_state (Some ''bar'') = None"
    by (simp_all add: known_plugin_def get_property_def object_prototype_def new_folder_state_def
        example_defs)
  have cv: "new_events new_folder_state (snd (checkVersion (Str ''foo'') new_folder_state))
       = [ReloadRequested (Str ''foo''), DebounceCreated 0 ''foo'' 750, DebounceInvoked 0]"
    by (simp add: new_folder_state_def example_defs checkVersion_def check_file_def
        manifest_dir_def property_key_def requestReload_def reloader_for_def call_reloader_def
        get_property_def object_prototype_def emit_def Let_def new_events_def)
  note t = onFileChange_routes_by_path_shape [OF r c]
  have 1: "onFileChange ''notes/plugins/foo/main.js'' new_folder_state = new_folder_state"
    using t[of "''notes/plugins/foo/main.js''"]
    by (simp add: startsWith_def new_folder_state_def example_defs)
  have 2: "onFileChange ''.obsidian/plugins/bar'' new_folder_state
        = watch ''.obsidian/plugins/bar'' new_folder_state"
    using t[of "''.obsidian/plugins/bar''"]
    by (simp add: startsWith_def below_root_def new_folder_state_def example_defs)
  have 3: "onFileChange ''.obsidian/plugins/foo/manifest.json'' new_folder_state
        = new_folder_state\<lparr>trace := trace new_folder_state @ [ReindexInvoked]\<rparr>"
    using t[of "''.obsidian/plugins/foo/manifest.json''"]
    by (simp add: startsWith_def below_root_def) (simp add: new_folder_state_def example_defs)
  have 4: "onFileChange ''.obsidian/plugins/bar/main.js'' new_folder_state
        = new_folder_state\<lparr>trace := trace new_folder_state @ [ReindexInvoked]\<rparr>"
    using t[of "''.obsidian/plugins/bar/main.js''"] k
    by (simp add: startsWith_def below_root_def) (simp add: new_folder_state_def example_defs)
  have 5: "onFileChange ''.obsidian/plugins/foo/data.json'' new_folder_state = new_folder_state"
    using t[of "''.obsidian/plugins/foo/data.json''"] k
    by (simp add: startsWith_def below_root_def) (simp add: new_folder_state_def example_defs)
  have 6: "onFileChange ''.obsidian/plugins/foo/src/main.js'' new_folder_state = new_folder_state"
    using t[of "''.obsidian/plugins/foo/src/main.js''"]
    by (simp add: startsWith_def below_root_def) (simp add: new_folder_state_def example_defs)
  have 7: "onFileChange ''.obsidian/plugins/foo/main.js'' new_folder_state
        = snd (checkVersion (Str ''foo'') new_folder_state)"
    using t[of "''.obsidian/plugins/foo/main.js''"] k
    by (simp add: startsWith_def below_root_def) (simp add: new_folder_state_def example_defs)
  have w: "watch ''.obsidian/plugins/bar'' new_folder_state
        = new_folder_state\<lparr>app := (app new_folder_state)\<lparr>watchers := {''.obsidian/plugins/bar''}\<rparr>,
             trace := [StartWatchPath ''.obsidian/plugins/bar'']\<rparr>"
    using t[of _ "''.obsidian/plugins/bar''"]
    by (simp add: new_folder_state_def example_defs)
  show ?thesis
    using r c 1 5 6 cv
    by (simp add: 2 3 4 7 w new_events_def) (simp add: new_folder_state_def example_defs)
qed

text \<open>
  C5 as stated fails for a path directly under the root that is no folder: on a platform
  that needs watchers, with nothing watched yet, the event for the plain file
  \<^verbatim>\<open>.obsidian/plugins/notes.md\<close> leaves everything as it was; no watch is established.
\<close>

theorem onFileChange_plain_file_not_watched_counterexample:
  "watchNeeded (app plain_file_state)
   \<and> watchers (app plain_file_state) = {}
   \<and> map_option ftype (adapter_stat (app plain_file_state) ''.obsidian/plugins/notes.md'')
       = Some File
   \<and> onFileChange ''.obsidian/plugins/notes.md'' plain_file_state = plain_file_state
   \<and> watchers (app (onFileChange ''.obsidian/plugins/notes.md'' plain_file_state)) = {}
   \<and> trace (onFileChange ''.obsidian/plugins/notes.md'' plain_file_state) = []"
  by (simp add: plain_file_state_def example_defs onFileChange_def startsWith_def pop_def
      watch_def)

subsection \<open>reload\<close>

lemma try_block_trace:
  "\<exists>evs. trace (snd (try_block h plugin ts s)) = trace s @ evs
      \<and> filter is_storage_write evs = [] \<and> filter is_notice evs = []"
  by (auto simp: try_block_def host_call_def emit_def is_storage_write_def is_notice_def
      split: prod.splits option.splits sum.splits)

lemma try_block_settings: "settings (snd (try_block h plugin ts s)) = settings s"
  by (auto simp: try_block_def host_call_def emit_def
      split: prod.splits option.splits sum.splits)

lemma finally_block_trace:
  "trace (finally_block old un plugin s) =
     trace s @ restore_write old # (if un then [Uninstall plugin] else [])"
  by (auto simp: finally_block_def setItem_def removeItem_def emit_def restore_write_def Let_def
      split: option.splits)

lemma finally_block_storage:
  "localStorage (app (finally_block old un plugin s)) ''debug-plugin'' = old"
  by (auto simp: finally_block_def setItem_def removeItem_def emit_def Let_def
      split: option.splits)

lemma finally_block_settings: "settings (finally_block old un plugin s) = settings s"
  by (auto simp: finally_block_def setItem_def removeItem_def emit_def Let_def
      split: option.splits)

lemma showNotice_app: "app (showNotice m s) = app s"
  by (simp add: showNotice_def emit_def Let_def)

lemma showNotice_trace:
  "trace (showNotice m s) =
     trace s @ ConsoleDebug [m] # (if shouldShowReloadNotice (settings s) then [NewNotice m] else [])"
  by (simp add: showNotice_def emit_def Let_def)

lemma before_try_trace:
  "trace (before_try plugin a1 s) =
     trace s @ [DisablePlugin plugin, ConsoleDebug [''disabled'', plugin], SetItem ''debug-plugin'' ''1'']
       @ (if apiVersion_1_6 a1 then [PatchRead plugin] else [])"
  by (simp add: before_try_def preventSourcemapStripping_def setItem_def emit_def)

lemma before_try_settings: "settings (before_try plugin a1 s) = settings s"
  by (simp add: before_try_def preventSourcemapStripping_def setItem_def emit_def)

lemma reload_disable_failed:
  assumes "plugin \<in> host_enabledPlugins (app s)"
    and "disablePlugin h plugin (app s) = (Some e, a1)"
  shows "reload h plugin s = (Inl e, s\<lparr>trace := trace s @ [DisablePlugin plugin], app := a1\<rparr>)"
  using assms by (simp add: reload_def host_call_def emit_def Let_def)

lemma reload_disabled:
  assumes "plugin \<in> host_enabledPlugins (app s)"
    and "disablePlugin h plugin (app s) = (None, a1)"
  shows "reload h plugin s =
     (case try_block h plugin (settingTabState plugin s) (before_try plugin a1 s) of
        (Inl e, s5) \<Rightarrow>
          (Inl e, finally_block (localStorage a1 ''debug-plugin'') (apiVersion_1_6 a1) plugin s5)
      | (Inr u, s5) \<Rightarrow>
          (Inr (), showNotice (reloaded_message plugin)
             (finally_block (localStorage a1 ''debug-plugin'') (apiVersion_1_6 a1) plugin s5)))"
  using assms
  by (auto simp: reload_def host_call_def emit_def Let_def before_try_def
      preventSourcemapStripping_def setItem_def split: prod.splits sum.splits)

lemma reload_disabled_trace:
  assumes en: "plugin \<in> host_enabledPlugins (app s)"
    and dis: "disablePlugin h plugin (app s) = (None, a1)"
  shows "\<exists>evs. trace (snd (reload h plugin s)) =
            trace s @ [DisablePlugin plugin, ConsoleDebug [''disabled'', plugin], SetItem ''debug-plugin'' ''1'']
              @ evs @ [restore_write (localStorage a1 ''debug-plugin'')]
              @ (if apiVersion_1_6 a1 then [Uninstall plugin] else [])
              @ (case fst (reload h plugin s) of
                   Inl e \<Rightarrow> []
                 | Inr u \<Rightarrow> ConsoleDebug [reloaded_message plugin] #
                     (if shouldShowReloadNotice (settings s) then [NewNotice (reloaded_message plugin)] else []))
          \<and> filter is_storage_write evs = [] \<and> filter is_notice evs = []"
proof -
  obtain r s5 where tb: "try_block h plugin (settingTabState plugin s) (before_try plugin a1 s) = (r, s5)"
    by (cases "try_block h plugin (settingTabState plugin s) (before_try plugin a1 s)")
  obtain evs where t5: "trace s5 = trace (before_try plugin a1 s) @ evs"
    and w: "filter is_storage_write evs = []" and n: "filter is_notice evs = []"
    using try_block_trace[of h plugin "settingTabState plugin s" "before_try plugin a1 s"] tb by auto
  have s5: "settings s5 = settings s"
    using try_block_settings[of h plugin "settingTabState plugin s" "before_try plugin a1 s"] tb
    by (simp add: before_try_settings)
  show ?thesis
    apply (rule exI[where x="(if apiVersion_1_6 a1 then [PatchRead plugin] else []) @ evs"])
    using w n
    by (cases r)
      (auto simp: reload_disabled[OF en dis] tb showNotice_trace finally_block_trace
        finally_block_settings s5 t5 before_try_trace is_storage_write_def is_notice_def)
qed

lemma reload_extends_trace: "trace (snd (reload h plugin s)) = trace s @ new_events s (snd (reload h plugin s))"
proof (cases "plugin \<in> host_enabledPlugins (app s)")
  case False
  then show ?thesis by (simp add: reload_def new_events_def)
next
  case True
  obtain r a1 where d: "disablePlugin h plugin (app s) = (r, a1)"
    by (cases "disablePlugin h plugin (app s)")
  show ?thesis
  proof (cases r)
    case None
    with d have dd: "disablePlugin h plugin (app s) = (None, a1)" by simp
    from reload_disabled_trace[OF True dd] obtain x where "trace (snd (reload h plugin s)) = trace s @ x"
      by blast
    then show ?thesis by (simp add: new_events_def)
  next
    case (Some e)
    with d have dd: "disablePlugin h plugin (app s) = (Some e, a1)" by simp
    show ?thesis by (simp add: reload_disable_failed[OF True dd] new_events_def)
  qed
qed

lemma reload_disabled_storage:
  assumes en: "plugin \<in> host_enabledPlugins (app s)"
    and dis: "disablePlugin h plugin (app s) = (None, a1)"
  shows "localStorage (app (snd (reload h plugin s))) ''debug-plugin'' = localStorage a1 ''debug-plugin''"
  by (auto simp: reload_disabled[OF en dis] showNotice_app finally_block_storage
      split: prod.splits sum.splits)

lemmas reload_defs = reload_def reload_action_def try_block_def finally_block_def host_call_def
  settingTabState_def preventSourcemapStripping_def setItem_def removeItem_def showNotice_def
  emit_def new_events_def is_storage_write_def is_notice_def restore_write_def Let_def

text \<open>
  C8.  When the plugin is not in the host's set of enabled plugins, \<^verbatim>\<open>reload\<close> fulfils at
  once and leaves the whole state as it was: no call is recorded (nothing is disabled or
  enabled, no notice, no log line) and the host, with its \<^verbatim>\<open>localStorage\<close>, is untouched.
  The action handed to the queue does the same.
\<close>

theorem reload_not_enabled_is_noop:
  "plugin \<notin> host_enabledPlugins (app s) \<Longrightarrow>
     reload h plugin s = (Inr (), s) \<and> reload_action h plugin s = (Inr (), s)"
  by (simp add: reload_def reload_action_def)

theorem reload_not_enabled_is_noop_witness:
  "''foo'' \<notin> host_enabledPlugins (app switched_off_state)
   \<and> reload host_ok ''foo'' switched_off_state = (Inr (), switched_off_state)"
proof -
  have e: "''foo'' \<notin> host_enabledPlugins (app switched_off_state)"
    by (simp add: switched_off_state_def)
  show ?thesis
    using e reload_not_enabled_is_noop [OF e, of host_ok] by simp
qed

text \<open>
  C4 (as the code has it).  For a plugin that is enabled in the host: when
  \<^verbatim>\<open>disablePlugin\<close> rejects, \<^verbatim>\<open>reload\<close> rejects with that error and never writes to
  \<^verbatim>\<open>localStorage\<close>, so the flag is neither set nor restored; when \<^verbatim>\<open>disablePlugin\<close>
  fulfils, then whatever \<^verbatim>\<open>enablePlugin\<close> and the reopening of the settings tab do,
  \<^verbatim>\<open>reload\<close> writes the flag exactly twice, first \<^verbatim>\<open>"1"\<close> and then, once, the value the flag
  had when \<^verbatim>\<open>disablePlugin\<close> returned (removing it when there was none), and that value is
  the flag's value when \<^verbatim>\<open>reload\<close> ends.  The action handed to the queue always fulfils:
  an error of \<^verbatim>\<open>reload\<close> is passed to \<^verbatim>\<open>console.error\<close> and goes no further.  In every run
  of the task queue in which the promise of an action has settled with that outcome, the
  action submitted after it has been called once the microtasks queued at that moment
  have run.
\<close>

theorem reload_restores_debug_flag:
  assumes "plugin \<in> host_enabledPlugins (app s)"
  shows "(case disablePlugin h plugin (app s) of
            (Some e, a1) \<Rightarrow>
              fst (reload h plugin s) = Inl e
              \<and> filter is_storage_write (new_events s (snd (reload h plugin s))) = []
              \<and> localStorage (app (snd (reload h plugin s))) = localStorage a1
          | (None, a1) \<Rightarrow>
              filter is_storage_write (new_events s (snd (reload h plugin s))) =
                [SetItem ''debug-plugin'' ''1'', restore_write (localStorage a1 ''debug-plugin'')]
              \<and> localStorage (app (snd (reload h plugin s))) ''debug-plugin''
                  = localStorage a1 ''debug-plugin'')
         \<and> fst (reload_action h plugin s) = Inr ()
         \<and> (case reload h plugin s of
               (Inl e, s1) \<Rightarrow> snd (reload_action h plugin s) = emit (ConsoleError e) s1
             | (Inr u, s1) \<Rightarrow> snd (reload_action h plugin s) = s1)
         \<and> as_outcome (fst (reload_action h plugin s)) = Fulfilled ()
         \<and> (\<forall>ins i. Suc i < length (submitted (events (execute () ins)))
               \<and> SettledP (submitted (events (execute () ins)) ! i)
                    (as_outcome (fst (reload_action h plugin s)))
                  \<in> set (events (execute () ins))
              \<longrightarrow> Started (submitted (events (execute () ins)) ! Suc i)
                  \<in> set (events (drain (length (jobs (execute () ins))) (execute () ins))))"
proof -
  have Q: "\<forall>ins i. Suc i < length (submitted (events (execute () ins)))
               \<and> SettledP (submitted (events (execute () ins)) ! i)
                    (as_outcome (fst (reload_action h plugin s)))
                  \<in> set (events (execute () ins))
              \<longrightarrow> Started (submitted (events (execute () ins)) ! Suc i)
                  \<in> set (events (drain (length (jobs (execute () ins))) (execute () ins)))"
  proof (intro allI impI)
    fix ins :: "unit input list" and i
    assume a: "Suc i < length (submitted (events (execute () ins)))
               \<and> SettledP (submitted (events (execute () ins)) ! i)
                    (as_outcome (fst (reload_action h plugin s)))
                  \<in> set (events (execute () ins))"
    from next_starts[OF all_execute(1,3,5)[of "()" ins] conjunct1[OF a] conjunct2[OF a]]
    show "Started (submitted (events (execute () ins)) ! Suc i)
                  \<in> set (events (drain (length (jobs (execute () ins))) (execute () ins)))" .
  qed
  have F: "as_outcome (fst (reload_action h plugin s)) = Fulfilled ()"
    by (simp add: reload_action_def as_outcome_def split: prod.splits sum.splits)
  obtain r a1 where d: "disablePlugin h plugin (app s) = (r, a1)"
    by (cases "disablePlugin h plugin (app s)")
  have A: "fst (reload_action h plugin s) = Inr ()"
    by (simp add: reload_action_def split: prod.splits sum.splits)
  have B: "(case reload h plugin s of
               (Inl e, s1) \<Rightarrow> snd (reload_action h plugin s) = emit (ConsoleError e) s1
             | (Inr u, s1) \<Rightarrow> snd (reload_action h plugin s) = s1)"
    by (simp add: reload_action_def split: prod.splits sum.splits)
  show ?thesis
  proof (cases r)
    case (Some e)
    with d have dd: "disablePlugin h plugin (app s) = (Some e, a1)" by simp
    have "fst (reload h plugin s) = Inl e
        \<and> filter is_storage_write (new_events s (snd (reload h plugin s))) = []
        \<and> localStorage (app (snd (reload h plugin s))) = localStorage a1"
      by (simp add: reload_disable_failed[OF assms dd] new_events_def is_storage_write_def)
    with A B Q F show ?thesis unfolding dd by simp
  next
    case None
    with d have dd: "disablePlugin h plugin (app s) = (None, a1)" by simp
    from reload_disabled_trace[OF assms dd] obtain evs where
      t: "trace (snd (reload h plugin s)) =
            trace s @ [DisablePlugin plugin, ConsoleDebug [''disabled'', plugin], SetItem ''debug-plugin'' ''1'']
              @ evs @ [restore_write (localStorage a1 ''debug-plugin'')]
              @ (if apiVersion_1_6 a1 then [Uninstall plugin] else [])
              @ (case fst (reload h plugin s) of
                   Inl e \<Rightarrow> []
                 | Inr u \<Rightarrow> ConsoleDebug [reloaded_message plugin] #
                     (if shouldShowReloadNotice (settings s) then [NewNotice (reloaded_message plugin)] else []))"
      and w: "filter is_storage_write evs = []" by blast
    have "filter is_storage_write (new_events s (snd (reload h plugin s))) =
                [SetItem ''debug-plugin'' ''1'', restore_write (localStorage a1 ''debug-plugin'')]"
      unfolding new_events_def t using w
      by (auto simp: is_storage_write_def restore_write_def split: option.splits sum.splits)
    with reload_disabled_storage[OF assms dd] A B Q F show ?thesis unfolding dd by simp
  qed
qed

theorem reload_restores_debug_flag_witness:
  "''foo'' \<in> host_enabledPlugins (app example_state)
   \<and> disablePlugin host_enable_fails ''foo'' (app example_state)
       = (None, example_app\<lparr>host_enabledPlugins := {}\<rparr>)
   \<and> fst (reload host_enable_fails ''foo'' example_state) = Inl (Error ''enable failed'')
   \<and> filter is_storage_write
         (new_events example_state (snd (reload host_enable_fails ''foo'' example_state)))
       = [SetItem ''debug-plugin'' ''1'', RemoveItem ''debug-plugin'']
   \<and> localStorage (app (snd (reload host_enable_fails ''foo'' example_state))) ''debug-plugin'' = None
   \<and> fst (reload_action host_enable_fails ''foo'' example_state) = Inr ()"
proof -
  have e: "''foo'' \<in> host_enabledPlugins (app example_state)"
    by (simp add: example_defs)
  show ?thesis
    using e reload_restores_debug_flag [OF e, of host_enable_fails]
    by (simp add: example_defs host_enable_fails_def host_ok_def reload_defs)
qed

text \<open>
  C4 as stated fails when the disable step is the one that fails: \<^verbatim>\<open>reload\<close> rejects and
  has written nothing to \<^verbatim>\<open>localStorage\<close>, so the restoring write ran zero times, not once.
\<close>

theorem reload_disable_failure_no_restore_counterexample:
  "''foo'' \<in> host_enabledPlugins (app example_state)
   \<and> fst (reload host_disable_fails ''foo'' example_state) = Inl (Error ''disable failed'')
   \<and> filter is_storage_write (trace (snd (reload host_disable_fails ''foo'' example_state))) = []"
  by (simp add: example_defs host_disable_fails_def host_ok_def reload_defs)




subsection \<open>One reloader for each plugin\<close>

lemma grows_refl: "grows s s"
  by (simp add: grows_def)

lemma grows_trans: "grows s s' \<Longrightarrow> grows s' s'' \<Longrightarrow> grows s s''"
  unfolding grows_def
proof
  fix p
  assume a: "\<forall>p. (pluginReloaders s' p = pluginReloaders s p \<and> created_for p (trace s') = created_for p (trace s))
      \<or> (pluginReloaders s p = None \<and> pluginReloaders s' p \<noteq> None \<and> created_for p (trace s') = Suc (created_for p (trace s)))"
    and b: "\<forall>p. (pluginReloaders s'' p = pluginReloaders s' p \<and> created_for p (trace s'') = created_for p (trace s'))
      \<or> (pluginReloaders s' p = None \<and> pluginReloaders s'' p \<noteq> None \<and> created_for p (trace s'') = Suc (created_for p (trace s')))"
  from a[rule_format, of p] b[rule_format, of p]
  show "(pluginReloaders s'' p = pluginReloaders s p \<and> created_for p (trace s'') = created_for p (trace s))
      \<or> (pluginReloaders s p = None \<and> pluginReloaders s'' p \<noteq> None \<and> created_for p (trace s'') = Suc (created_for p (trace s)))"
    by auto
qed

lemma grows_fold: "(\<And>x s. grows s (f x s)) \<Longrightarrow> grows s (fold f xs s)"
proof (induction xs arbitrary: s)
  case Nil
  then show ?case by (simp add: grows_refl)
next
  case (Cons x xs)
  show ?case using grows_trans[OF Cons.prems[of s x] Cons.IH[OF Cons.prems, of "f x s"]] by simp
qed

lemma grows_requestReload: "grows s (snd (requestReload q s))"
  by (auto simp: grows_def requestReload_def reloader_for_def call_reloader_def get_property_def
      emit_def Let_def created_for_def is_created_for_def
      split: option.splits jsvalue.splits property.splits)

lemma grows_statCache: "grows s s' \<Longrightarrow> grows s (s'\<lparr>statCache := c\<rparr>)"
  by (simp add: grows_def)

lemma grows_check_file: "grows s (snd (check_file q p s))"
proof -
  obtain res s1 where r: "requestReload q s = (res, s1)" by (cases "requestReload q s")
  with grows_requestReload[of s q] have g: "grows s s1" by simp
  show ?thesis
    using g grows_statCache[OF g] grows_statCache[OF grows_refl[of s]]
    by (auto simp: check_file_def r grows_refl split: option.splits sum.splits)
qed

lemma grows_check_files: "grows s (snd (check_files q ps s))"
proof (induction ps arbitrary: s)
  case Nil
  then show ?case by (simp add: grows_refl)
next
  case (Cons p ps)
  obtain res s1 where c: "check_file q p s = (res, s1)" by (cases "check_file q p s")
  with grows_check_file[of s q p] have g: "grows s s1" by simp
  show ?case
    using g grows_trans[OF g Cons.IH[of s1]]
    by (cases res) (simp_all add: c)
qed

lemma grows_pluginNames: "grows s s' \<Longrightarrow> grows s (s'\<lparr>pluginNames := c\<rparr>)"
  by (simp add: grows_def)

lemma grows_checkVersion: "grows s (snd (checkVersion q s))"
  by (cases "manifest_dir (app s) (property_key (app s) q)")
     (simp_all add: checkVersion_def grows_check_files grows_pluginNames grows_refl
        del: check_files.simps)

lemma grows_checkVersions_fold:
  "grows s s' \<Longrightarrow>
     grows s (snd (fold (\<lambda>plugin (res, s1).
             case checkVersion (Str plugin) s1 of
               (res', s2) \<Rightarrow> (case res of Inl e \<Rightarrow> Inl e | Inr u \<Rightarrow> res', s2)) qs (res0, s')))"
proof (induction qs arbitrary: res0 s')
  case Nil
  then show ?case by simp
next
  case (Cons q qs)
  obtain res1 s1 where c: "checkVersion (Str q) s' = (res1, s1)"
    by (cases "checkVersion (Str q) s'")
  with grows_checkVersion[of s' "Str q"] have "grows s' s1" by simp
  from grows_trans[OF Cons.prems this] have g: "grows s s1" .
  show ?case using Cons.IH[OF g] by (simp add: c)
qed

lemma grows_checkVersions: "grows s (snd (checkVersions s))"
  unfolding checkVersions_def by (rule grows_checkVersions_fold) (rule grows_refl)

lemma grows_watch: "grows s (watch p s)"
  by (auto simp: watch_def startWatchPath_def emit_def grows_def created_for_def is_created_for_def
      split: option.splits)

lemma scan_manifest_fold:
  "fold scan_manifest ms (pl, en, s) = (pl', en', s') \<Longrightarrow>
     grows s s' \<and> vault_exists (app s') = vault_exists (app s)
     \<and> en' = en \<union> plugin_id ` {m \<in> set ms. has_marker (app s) m}"
proof (induction ms arbitrary: pl en s)
  case Nil
  then show ?case by (simp add: grows_refl)
next
  case (Cons m ms)
  let ?en1 = "if has_marker (app s) m then insert (plugin_id m) en else en"
  have step: "scan_manifest m (pl, en, s) =
      (set_property (last (split_slash (dir m))) (plugin_id m) pl, ?en1, watch (dir m) s)"
    by (simp add: scan_manifest_def)
  have ve: "vault_exists (app (watch (dir m) s)) = vault_exists (app s)"
    by (auto simp: watch_def startWatchPath_def emit_def split: option.splits)
  then have hm: "has_marker (app (watch (dir m) s)) = has_marker (app s)"
    by (auto simp: has_marker_def fun_eq_iff)
  from Cons.prems have
    "fold scan_manifest ms (set_property (last (split_slash (dir m))) (plugin_id m) pl, ?en1, watch (dir m) s)
       = (pl', en', s')"
    by (simp add: step)
  from Cons.IH[OF this] show ?case
    using grows_trans[OF grows_watch[of s "dir m"]] ve hm by auto
qed

lemma grows_getPluginNames: "grows s (snd (getPluginNames s))"
proof -
  obtain pl en s1 where f: "fold scan_manifest (map snd (manifests (app s))) ([], {}, s) = (pl, en, s1)"
    by (cases "fold scan_manifest (map snd (manifests (app s))) ([], {}, s)") auto
  from scan_manifest_fold[OF f] have g: "grows s s1" by simp
  have "grows s (s1\<lparr>pluginNames := pl, enabledPlugins := en\<rparr>)"
    using g by (simp add: grows_def)
  from grows_trans[OF this grows_checkVersions]
  show ?thesis by (simp add: getPluginNames_def f)
qed

lemma check_file_enabledPlugins: "enabledPlugins (snd (check_file q p s)) = enabledPlugins s"
proof -
  obtain res s1 where r: "requestReload q s = (res, s1)" by (cases "requestReload q s")
  with requestReload_fields(4)[of q s] have "enabledPlugins s1 = enabledPlugins s" by simp
  then show ?thesis
    by (auto simp: check_file_def r split: option.splits sum.splits)
qed

lemma check_files_enabledPlugins: "enabledPlugins (snd (check_files q ps s)) = enabledPlugins s"
proof (induction ps arbitrary: s)
  case Nil
  then show ?case by simp
next
  case (Cons p ps)
  obtain res s1 where c: "check_file q p s = (res, s1)" by (cases "check_file q p s")
  with check_file_enabledPlugins[of q p s] have "enabledPlugins s1 = enabledPlugins s" by simp
  with Cons.IH[of s1] show ?case by (cases res) (simp_all add: c)
qed

lemma checkVersion_enabledPlugins: "enabledPlugins (snd (checkVersion q s)) = enabledPlugins s"
  by (cases "manifest_dir (app s) (property_key (app s) q)")
     (simp_all add: checkVersion_def check_files_enabledPlugins del: check_files.simps)

lemma checkVersions_fold_enabledPlugins:
  "enabledPlugins (snd (fold (\<lambda>plugin (res, s1).
             case checkVersion (Str plugin) s1 of
               (res', s2) \<Rightarrow> (case res of Inl e \<Rightarrow> Inl e | Inr u \<Rightarrow> res', s2)) qs (res0, s')))
     = enabledPlugins s'"
proof (induction qs arbitrary: res0 s')
  case Nil
  then show ?case by simp
next
  case (Cons q qs)
  obtain res1 s1 where c: "checkVersion (Str q) s' = (res1, s1)"
    by (cases "checkVersion (Str q) s'")
  with checkVersion_enabledPlugins[of "Str q" s'] have "enabledPlugins s1 = enabledPlugins s'" by simp
  with Cons.IH[of _ s1] show ?case by (simp add: c)
qed

lemma getPluginNames_enabledPlugins:
  "enabledPlugins (snd (getPluginNames s)) =
     plugin_id ` {m \<in> snd ` set (manifests (app s)). has_marker (app s) m}"
proof -
  obtain pl en s1 where f: "fold scan_manifest (map snd (manifests (app s))) ([], {}, s) = (pl, en, s1)"
    by (cases "fold scan_manifest (map snd (manifests (app s))) ([], {}, s)") auto
  from scan_manifest_fold[OF f] have "en = plugin_id ` {m \<in> snd ` set (manifests (app s)). has_marker (app s) m}"
    by simp
  then show ?thesis
    by (simp add: getPluginNames_def f checkVersions_def checkVersions_fold_enabledPlugins)
qed

lemma grows_emit_other:
  "(\<And>p. \<not> is_created_for p e) \<Longrightarrow> grows s (emit e s)"
  by (simp add: grows_def emit_def created_for_def)

lemma onFileChange_cases:
  "onFileChange f s = s \<or> onFileChange f s = watch f s
   \<or> onFileChange f s = emit ReindexInvoked s
   \<or> (\<exists>v. onFileChange f s = snd (checkVersion v s))"
  by (auto simp: onFileChange_def Let_def split: prod.splits option.splits)

lemma grows_onFileChange: "grows s (onFileChange f s)"
  using onFileChange_cases[of f s]
  by (auto simp: grows_refl grows_watch grows_checkVersion grows_emit_other is_created_for_def)

lemma grows_try_block: "grows s (snd (try_block h plugin ts s))"
  by (auto simp: try_block_def host_call_def emit_def grows_def created_for_def is_created_for_def
      split: prod.splits option.splits sum.splits)

lemma grows_finally_block: "grows s (finally_block old un plugin s)"
  by (auto simp: finally_block_def setItem_def removeItem_def emit_def Let_def grows_def
      created_for_def is_created_for_def split: option.splits)

lemma grows_showNotice: "grows s (showNotice m s)"
  by (simp add: showNotice_def emit_def Let_def grows_def created_for_def is_created_for_def)

lemma grows_before_try: "grows s (before_try plugin a1 s)"
  by (simp add: before_try_def preventSourcemapStripping_def setItem_def emit_def grows_def
      created_for_def is_created_for_def)

lemma grows_reload: "grows s (snd (reload h plugin s))"
proof (cases "plugin \<in> host_enabledPlugins (app s)")
  case False
  then show ?thesis by (simp add: reload_def grows_refl)
next
  case True
  obtain r a1 where d: "disablePlugin h plugin (app s) = (r, a1)"
    by (cases "disablePlugin h plugin (app s)")
  show ?thesis
  proof (cases r)
    case (Some e)
    with d have dd: "disablePlugin h plugin (app s) = (Some e, a1)" by simp
    show ?thesis
      by (simp add: reload_disable_failed[OF True dd] grows_def created_for_def is_created_for_def)
  next
    case None
    with d have dd: "disablePlugin h plugin (app s) = (None, a1)" by simp
    obtain res s5 where tb:
      "try_block h plugin (settingTabState plugin s) (before_try plugin a1 s) = (res, s5)"
      by (cases "try_block h plugin (settingTabState plugin s) (before_try plugin a1 s)")
    have g5: "grows s s5"
      using grows_trans[OF grows_before_try
          grows_try_block[of "before_try plugin a1 s" h plugin "settingTabState plugin s"]] tb
      by simp
    have g6: "grows s (finally_block (localStorage a1 ''debug-plugin'') (apiVersion_1_6 a1) plugin s5)"
      by (rule grows_trans[OF g5 grows_finally_block])
    show ?thesis
      using g6 grows_trans[OF g6 grows_showNotice]
      by (cases res) (simp_all add: reload_disabled[OF True dd] tb)
  qed
qed

lemma grows_reload_action: "grows s (snd (reload_action h plugin s))"
proof -
  obtain res s1 where r: "reload h plugin s = (res, s1)" by (cases "reload h plugin s")
  have g: "grows s s1" using grows_reload[of s h plugin] r by simp
  have "grows s1 (emit (ConsoleError e) s1)" for e
    by (simp add: grows_emit_other is_created_for_def)
  from grows_trans[OF g this] g show ?thesis
    by (cases res) (simp_all add: reload_action_def r)
qed

lemma grows_perform: "grows s (perform c s)"
  by (cases c)
    (simp_all add: grows_requestReload grows_checkVersion grows_checkVersions grows_getPluginNames
      grows_onFileChange grows_watch grows_reload_action, simp_all add: grows_def)

lemma grows_run: "grows s (fold perform cs s)"
  by (rule grows_fold) (rule grows_perform)

lemma created_once:
  "created_for p (trace (fold perform cs (new_plugin st a))) =
     (case pluginReloaders (fold perform cs (new_plugin st a)) p of None \<Rightarrow> 0 | Some r \<Rightarrow> 1)"
  using grows_run[of "new_plugin st a" cs]
  by (auto simp: grows_def new_plugin_def created_for_def split: option.splits dest: spec[where x=p])

lemma two_requests_run:
  "fold perform two_requests (new_plugin example_settings example_app) =
     \<lparr>settings = example_settings,
      statCache = [''.obsidian/plugins/foo/main.js'' \<mapsto> \<lparr>ftype = File, ctime = 0, mtime = 2, fsize = 10\<rparr>],
      pluginReloaders = [''foo'' \<mapsto> 0],
      pluginNames = [(''foo'', ''foo'')],
      enabledPlugins = {''foo''},
      app = example_app,
      trace = [ReloadRequested (Str ''foo''), DebounceCreated 0 ''foo'' 750, DebounceInvoked 0,
               ReloadRequested (Str ''foo''), DebounceInvoked 0],
      reloadersMade = 1\<rparr>"
  by (simp add: two_requests_def new_plugin_def example_defs getPluginNames_def scan_manifest_def
      set_property_def has_marker_def watch_def checkVersions_def checkVersion_def check_file_def
      manifest_dir_def property_key_def requestReload_def reloader_for_def call_reloader_def
      get_property_def object_prototype_def emit_def Let_def)

text \<open>
  C9 (amended).  Whatever calls reach the plugin after its construction, at most one
  reloader has been made for each plugin id, and one has been made exactly when one is
  stored; a stored reloader is never replaced.  A reload request made while the id is in
  \<^verbatim>\<open>enabledPlugins\<close> makes, stores and invokes the reloader when none is stored (for an id
  that is not the name of a member of \<^verbatim>\<open>Object.prototype\<close>), and invokes the stored one,
  making nothing, when there is one.  A request made while the id is not in
  \<^verbatim>\<open>enabledPlugins\<close> makes none, stores none and invokes none.
\<close>

theorem one_reloader_per_plugin:
  "created_for p (trace (fold perform cs (new_plugin st a))) \<le> 1
   \<and> (created_for p (trace (fold perform cs (new_plugin st a))) = 1
        \<longleftrightarrow> pluginReloaders (fold perform cs (new_plugin st a)) p \<noteq> None)
   \<and> (plugin \<in> enabledPlugins s \<and> pluginReloaders s plugin = None
        \<and> plugin \<notin> set object_prototype \<longrightarrow>
        requestReload (Str plugin) s =
          (Inr (),
           s\<lparr>pluginReloaders := (pluginReloaders s)(plugin \<mapsto> reloadersMade s),
             reloadersMade := Suc (reloadersMade s),
             trace := trace s @
               [ReloadRequested (Str plugin), DebounceCreated (reloadersMade s) plugin 750,
                DebounceInvoked (reloadersMade s)]\<rparr>))
   \<and> (plugin \<in> enabledPlugins s \<and> pluginReloaders s plugin = Some r \<longrightarrow>
        requestReload (Str plugin) s =
          (Inr (), s\<lparr>trace := trace s @ [ReloadRequested (Str plugin), DebounceInvoked r]\<rparr>))
   \<and> (plugin \<notin> enabledPlugins s \<longrightarrow>
        pluginReloaders (snd (requestReload (Str plugin) s)) = pluginReloaders s
        \<and> reloadersMade (snd (requestReload (Str plugin) s)) = reloadersMade s
        \<and> filter is_debounce (new_events s (snd (requestReload (Str plugin) s))) = [])
   \<and> (pluginReloaders s plugin = Some r \<longrightarrow> pluginReloaders (perform c s) plugin = Some r)"
proof -
  have A: "created_for p (trace (fold perform cs (new_plugin st a))) \<le> 1
     \<and> (created_for p (trace (fold perform cs (new_plugin st a))) = 1
        \<longleftrightarrow> pluginReloaders (fold perform cs (new_plugin st a)) p \<noteq> None)"
    by (simp add: created_once split: option.splits)
  have B: "plugin \<in> enabledPlugins s \<and> pluginReloaders s plugin = None
        \<and> plugin \<notin> set object_prototype \<longrightarrow>
        requestReload (Str plugin) s =
          (Inr (),
           s\<lparr>pluginReloaders := (pluginReloaders s)(plugin \<mapsto> reloadersMade s),
             reloadersMade := Suc (reloadersMade s),
             trace := trace s @
               [ReloadRequested (Str plugin), DebounceCreated (reloadersMade s) plugin 750,
                DebounceInvoked (reloadersMade s)]\<rparr>)"
    by (simp add: requestReload_def reloader_for_def call_reloader_def get_property_def emit_def
        Let_def)
  have C: "plugin \<in> enabledPlugins s \<and> pluginReloaders s plugin = Some r \<longrightarrow>
        requestReload (Str plugin) s =
          (Inr (), s\<lparr>trace := trace s @ [ReloadRequested (Str plugin), DebounceInvoked r]\<rparr>)"
    by (simp add: requestReload_def reloader_for_def call_reloader_def get_property_def emit_def
        Let_def)
  have E: "plugin \<notin> enabledPlugins s \<longrightarrow>
        pluginReloaders (snd (requestReload (Str plugin) s)) = pluginReloaders s
        \<and> reloadersMade (snd (requestReload (Str plugin) s)) = reloadersMade s
        \<and> filter is_debounce (new_events s (snd (requestReload (Str plugin) s))) = []"
    by (simp add: requestReload_def emit_def Let_def new_events_def is_debounce_def)
  have D: "pluginReloaders s plugin = Some r \<longrightarrow> pluginReloaders (perform c s) plugin = Some r"
    using grows_perform[of s c] by (auto simp: grows_def dest: spec[where x=plugin])
  from A B C D E show ?thesis by blast
qed

theorem one_reloader_per_plugin_witness:
  "created_for ''foo'' (trace (fold perform two_requests (new_plugin example_settings example_app))) = 1
   \<and> ''foo'' \<in> enabledPlugins example_state \<and> pluginReloaders example_state ''foo'' = None
   \<and> ''foo'' \<notin> set object_prototype
   \<and> pluginReloaders (snd (requestReload (Str ''foo'') example_state)) ''foo'' = Some 0
   \<and> ''foo'' \<in> enabledPlugins (snd (requestReload (Str ''foo'') example_state))
   \<and> new_events (snd (requestReload (Str ''foo'') example_state))
         (snd (requestReload (Str ''foo'') (snd (requestReload (Str ''foo'') example_state))))
       = [ReloadRequested (Str ''foo''), DebounceInvoked 0]
   \<and> ''foo'' \<notin> enabledPlugins not_opted_in_state
   \<and> filter is_debounce
         (new_events not_opted_in_state (snd (requestReload (Str ''foo'') not_opted_in_state))) = []"
proof -
  have 0: "''foo'' \<notin> set object_prototype"
    by (simp add: object_prototype_def)
  have 1: "pluginReloaders (snd (requestReload (Str ''foo'') example_state)) ''foo'' = Some 0"
    and 2: "''foo'' \<in> enabledPlugins (snd (requestReload (Str ''foo'') example_state))"
    by (simp_all add: example_defs requestReload_def reloader_for_def call_reloader_def
        get_property_def object_prototype_def emit_def Let_def)
  have 3: "''foo'' \<notin> enabledPlugins not_opted_in_state"
    by (simp add: not_opted_in_state_def)
  show ?thesis
    using 0 1 2 3
      one_reloader_per_plugin [of "''foo''" two_requests example_settings example_app "''foo''"
        example_state 0 "CallRequestReload (Str ''foo'')"]
      one_reloader_per_plugin [of "''foo''" two_requests example_settings example_app "''foo''"
        "snd (requestReload (Str ''foo'') example_state)" 0 "CallRequestReload (Str ''foo'')"]
      one_reloader_per_plugin [of "''foo''" two_requests example_settings example_app "''foo''"
        not_opted_in_state 0 "CallRequestReload (Str ''foo'')"]
    by (simp add: two_requests_run created_for_def is_created_for_def new_events_def)
       (simp add: example_defs)
qed

text \<open>
  C9 as stated fails for an id that is not opted in: its first reload request is made,
  and no reloader is created, stored or invoked.
\<close>

theorem requestReload_first_request_not_opted_in_counterexample:
  "pluginReloaders not_opted_in_state ''foo'' = None
   \<and> reload_requests (trace (snd (requestReload (Str ''foo'') not_opted_in_state))) = [Str ''foo'']
   \<and> pluginReloaders (snd (requestReload (Str ''foo'') not_opted_in_state)) ''foo'' = None
   \<and> filter is_debounce (trace (snd (requestReload (Str ''foo'') not_opted_in_state))) = []"
  by (simp add: not_opted_in_state_def example_defs requestReload_def emit_def Let_def
      is_debounce_def)

text \<open>
  C10.  For a plugin id that is not in \<^verbatim>\<open>enabledPlugins\<close>, \<^verbatim>\<open>requestReload\<close> returns and
  changes nothing but the record of its own call: no reloader is made or stored and none
  is invoked, so nothing reaches the queue; \<^verbatim>\<open>checkVersion\<close> on such a plugin, whatever
  changed on disk, makes and invokes no reloader either.  After \<^verbatim>\<open>getPluginNames\<close>,
  \<^verbatim>\<open>enabledPlugins\<close> holds exactly the ids of the manifests whose directory had a \<^verbatim>\<open>.git\<close>
  or \<^verbatim>\<open>.hotreload\<close> entry at that scan.
\<close>

theorem requestReload_ignores_plugins_not_opted_in:
  "(plugin \<notin> enabledPlugins s \<longrightarrow>
      requestReload (Str plugin) s = (Inr (), s\<lparr>trace := trace s @ [ReloadRequested (Str plugin)]\<rparr>))
   \<and> (plugin \<notin> enabledPlugins s \<longrightarrow>
        filter is_debounce (trace (snd (checkVersion (Str plugin) s))) = filter is_debounce (trace s)
        \<and> pluginReloaders (snd (checkVersion (Str plugin) s)) = pluginReloaders s
        \<and> reloadersMade (snd (checkVersion (Str plugin) s)) = reloadersMade s)
   \<and> enabledPlugins (snd (getPluginNames s)) =
        plugin_id ` {m \<in> snd ` set (manifests (app s)). has_marker (app s) m}"
proof -
  have A: "plugin \<notin> enabledPlugins s \<longrightarrow>
      requestReload (Str plugin) s = (Inr (), s\<lparr>trace := trace s @ [ReloadRequested (Str plugin)]\<rparr>)"
    by (simp add: requestReload_def emit_def Let_def)
  have cf: "plugin \<notin> enabledPlugins s' \<Longrightarrow>
       fst (check_file (Str plugin) q s') = Inr ()
        \<and> filter is_debounce (trace (snd (check_file (Str plugin) q s'))) = filter is_debounce (trace s')
        \<and> pluginReloaders (snd (check_file (Str plugin) q s')) = pluginReloaders s'
        \<and> reloadersMade (snd (check_file (Str plugin) q s')) = reloadersMade s'
        \<and> enabledPlugins (snd (check_file (Str plugin) q s')) = enabledPlugins s'" for s' q
    by (auto simp: check_file_def requestReload_def emit_def Let_def is_debounce_def
        split: option.splits)
  have B: "plugin \<notin> enabledPlugins s \<longrightarrow>
        filter is_debounce (trace (snd (checkVersion (Str plugin) s))) = filter is_debounce (trace s)
        \<and> pluginReloaders (snd (checkVersion (Str plugin) s)) = pluginReloaders s
        \<and> reloadersMade (snd (checkVersion (Str plugin) s)) = reloadersMade s"
  proof
    assume n: "plugin \<notin> enabledPlugins s"
    show "filter is_debounce (trace (snd (checkVersion (Str plugin) s))) = filter is_debounce (trace s)
        \<and> pluginReloaders (snd (checkVersion (Str plugin) s)) = pluginReloaders s
        \<and> reloadersMade (snd (checkVersion (Str plugin) s)) = reloadersMade s"
    proof (cases "manifest_dir (app s) plugin")
      case None
      then show ?thesis by (simp add: checkVersion_def property_key_def)
    next
      case (Some d)
      let ?s1 = "snd (check_file (Str plugin) (d @ ''/main.js'') s)"
      have 1: "plugin \<notin> enabledPlugins ?s1"
        using cf[OF n] n by simp
      have cv: "checkVersion (Str plugin) s = check_file (Str plugin) (d @ ''/styles.css'') ?s1"
        using Some cf[OF n, of "d @ ''/main.js''"]
        by (cases "check_file (Str plugin) (d @ ''/main.js'') s")
           (auto simp: checkVersion_def property_key_def split: prod.splits sum.splits)
      show ?thesis
        unfolding cv
        using cf[OF n, of "d @ ''/main.js''"] cf[OF 1, of "d @ ''/styles.css''"]
        by simp
    qed
  qed
  from A B getPluginNames_enabledPlugins show ?thesis by blast
qed


theorem requestReload_ignores_plugins_not_opted_in_witness:
  "''foo'' \<notin> enabledPlugins not_opted_in_state
   \<and> real_change not_opted_in_state ''.obsidian/plugins/foo/main.js''
   \<and> reload_requests (trace (snd (checkVersion (Str ''foo'') not_opted_in_state))) = [Str ''foo'']
   \<and> filter is_debounce (trace (snd (checkVersion (Str ''foo'') not_opted_in_state))) = []
   \<and> pluginReloaders (snd (checkVersion (Str ''foo'') not_opted_in_state)) = Map.empty
   \<and> enabledPlugins (snd (getPluginNames not_opted_in_state)) = {}"
proof -
  have n: "''foo'' \<notin> enabledPlugins not_opted_in_state"
    by (simp add: not_opted_in_state_def)
  have r: "reload_requests (trace (snd (checkVersion (Str ''foo'') not_opted_in_state))) = [Str ''foo'']"
    by (simp add: not_opted_in_state_def example_defs checkVersion_def check_file_def
        manifest_dir_def property_key_def requestReload_def emit_def Let_def)
  show ?thesis
    using n r requestReload_ignores_plugins_not_opted_in [of "''foo''" not_opted_in_state]
    by (simp add: real_change_def has_marker_def) (simp add: not_opted_in_state_def example_defs)
qed

end
